theory Spec2Isabelle
  imports Complex_Main "HOL-Library.Log_Nat"
begin

section \<open>Audio utilities (src/utils/audio-utils.js)\<close>

text \<open>
  Samples and spectrum magnitudes are the entries of a Float32Array, and a JavaScript
  number is an IEEE 754 double. Both are modelled as the real numbers they denote
  (infinities and NaN entries are outside the model). A typed array is a list, indexed
  from 0. A JavaScript number that may be NaN is a \<open>real option\<close>, \<open>None\<close> standing for
  NaN: every comparison with it is false. A numeric literal of the source stands for the
  real it denotes.
\<close>

text \<open>
  Comparisons of doubles are exact; an arithmetic operation returns the double nearest
  to the exact result, ties going to the even significand. \<open>roundEven\<close> is that rounding
  to an integer, and \<open>fl\<close> the rounding of a real to 53 significant bits: for
  \<open>2 ^ e \<le> \<bar>r\<bar> < 2 ^ (e + 1)\<close> the doubles are the multiples of \<open>2 ^ (e - 52)\<close>. The
  exponent is not bounded: the squares of Float32Array entries, their sums over a frame
  and the square root of their mean are neither large enough to overflow nor small
  enough to be subnormal. The accumulation of \<open>calculateRMS\<close> is modelled with this
  rounding, operation by operation; the logarithm of \<open>amplitudeToDecibels\<close> and the
  products and quotients of the other utilities are taken exact.
\<close>

definition roundEven :: "real \<Rightarrow> int" where
  "roundEven y =
     (let f = \<lfloor>y\<rfloor>; d = y - of_int f
      in if d < 1 / 2 then f else if d > 1 / 2 then f + 1 else if even f then f else f + 1)"

definition fl :: "real \<Rightarrow> real" where
  "fl r =
     (if r = 0 then 0
      else (let u = 2 powr (of_int (\<lfloor>log 2 \<bar>r\<bar>\<rfloor> - 52))
            in of_int (roundEven (r / u)) * u))"

text \<open>
  The same rounding on integers, used to evaluate \<open>fl\<close> on multiples of a power of two:
  \<open>roundEvenDiv s k\<close> is \<open>s / 2 ^ k\<close> rounded to an integer, and \<open>round53 s\<close> is \<open>s\<close>
  rounded to 53 significant bits.
\<close>

definition roundEvenDiv :: "int \<Rightarrow> nat \<Rightarrow> int" where
  "roundEvenDiv s k =
     (let q = s div 2 ^ k; r = s mod 2 ^ k; h = 2 ^ (k - 1)
      in if k = 0 then s else if r < h then q else if r > h then q + 1 else if even q then q else q + 1)"

definition round53 :: "int \<Rightarrow> int" where
  "round53 s = (if s < 2 ^ 53 then s else (let k = nat (bitlen s - 53) in roundEvenDiv s k * 2 ^ k))"

text \<open>The loop of \<open>calculateRMS\<close>: \<open>sum += buffer[i] * buffer[i]\<close> for each index in order
  (the accumulator \<open>sum\<close> is called \<open>acc\<close> here). The product is rounded, then the sum.\<close>

fun sumSquares :: "real list \<Rightarrow> real \<Rightarrow> real" where
  "sumSquares [] acc = acc"
| "sumSquares (x # xs) acc = sumSquares xs (fl (acc + fl (x * x)))"

text \<open>
  \<open>Math.sqrt(sum / buffer.length)\<close>: the quotient is rounded, then the square root. On an
  empty buffer the quotient is \<open>0 / 0\<close>, which is NaN in JavaScript (and 0 in HOL): the
  case is written out.
\<close>

definition calculateRMS :: "real list \<Rightarrow> real option" where
  "calculateRMS buffer =
     (if length buffer = 0 then None
      else Some (fl (sqrt (fl (sumSquares buffer 0 / real (length buffer))))))"

definition amplitudeToDecibels :: "real \<Rightarrow> real" where
  "amplitudeToDecibels amplitude =
     (if amplitude < 0.0000001 then - 100 else 20 * log 10 amplitude)"

text \<open>
  The loop of \<open>calculateDominantFrequency\<close>; the state is \<open>(maxIndex, maxValue)\<close>, the
  second argument is the loop index \<open>i\<close>.
\<close>

fun dominantLoop :: "real list \<Rightarrow> nat \<Rightarrow> nat \<times> real \<Rightarrow> nat \<times> real" where
  "dominantLoop [] i (maxIndex, maxValue) = (maxIndex, maxValue)"
| "dominantLoop (x # xs) i (maxIndex, maxValue) =
     (if x > maxValue then dominantLoop xs (Suc i) (i, x)
      else dominantLoop xs (Suc i) (maxIndex, maxValue))"

text \<open>
  \<open>maxIndex\<close> and \<open>maxValue\<close> both start at 0. The result is
  \<open>maxIndex * sampleRate / fftSize\<close>; the only caller passes the analyser's \<open>fftSize\<close>,
  which is 1024 (a zero \<open>fftSize\<close> would give NaN or an infinity, not HOL's 0).
\<close>

definition calculateDominantFrequency :: "real list \<Rightarrow> real \<Rightarrow> real \<Rightarrow> real" where
  "calculateDominantFrequency frequencyData sampleRate fftSize =
     (let (maxIndex, maxValue) = dominantLoop frequencyData 0 (0, 0)
      in real maxIndex * sampleRate / fftSize)"

text \<open>The peak search of \<open>getAttackTime\<close>; the state is \<open>(peakIndex, peakValue)\<close>.\<close>

fun peakLoop :: "real list \<Rightarrow> nat \<Rightarrow> nat \<times> real \<Rightarrow> nat \<times> real" where
  "peakLoop [] i (peakIndex, peakValue) = (peakIndex, peakValue)"
| "peakLoop (x # xs) i (peakIndex, peakValue) =
     (if \<bar>x\<bar> > peakValue then peakLoop xs (Suc i) (i, \<bar>x\<bar>)
      else peakLoop xs (Suc i) (peakIndex, peakValue))"

text \<open>
  \<open>while (attackIndex > 0 && Math.abs(buffer[attackIndex]) > startThreshold) attackIndex--\<close>,
  as a function of the current \<open>attackIndex\<close>. The index read is at most \<open>peakIndex\<close>, which
  lies inside a non-empty buffer; on an empty buffer the index is 0 and nothing is read.
\<close>

fun attackWalk :: "real list \<Rightarrow> real \<Rightarrow> nat \<Rightarrow> nat" where
  "attackWalk buffer startThreshold 0 = 0"
| "attackWalk buffer startThreshold (Suc n) =
     (if \<bar>buffer ! Suc n\<bar> > startThreshold then attackWalk buffer startThreshold n
      else Suc n)"

definition getAttackTime :: "real list \<Rightarrow> real \<Rightarrow> int" where
  "getAttackTime buffer threshold =
     (let (peakIndex, peakValue) = peakLoop buffer 0 (0, 0)
      in if peakValue < threshold then - 1
         else (let startThreshold = threshold * 0.1;
                   attackIndex = attackWalk buffer startThreshold peakIndex
               in int peakIndex - int attackIndex))"


section \<open>The audio processor (src/audio-processor.js, class AudioProcessor)\<close>

text \<open>
  \<open>new Error(message)\<close> is \<open>Error message\<close>; \<open>TypeError\<close> is what reading a property of
  \<open>null\<close> throws. A rejection of \<open>getUserMedia\<close> carries a name and a message.
\<close>

datatype error = Error string | TypeError

record domException =
  excName :: string
  excMessage :: string

text \<open>The objects the host hands out: an audio context, a media stream, and the nodes.\<close>

datatype contextState = Suspended | Running

record audioContext =
  ctxState :: contextState
  sampleRate :: real

datatype mediaStream = MediaStream nat

datatype sourceNode = MediaStreamSource mediaStream

record analyserNode =
  fftSize :: nat
  smoothingTimeConstant :: real

text \<open>
  \<open>this.options\<close>. \<open>frequencyRange\<close> is the two-element array \<open>[min, max]\<close>, read as
  \<open>frequencyRange[0]\<close> and \<open>frequencyRange[1]\<close>. The options object a caller passes may
  leave any key out: \<open>None\<close> is an absent key.
\<close>

record options =
  threshold :: real
  minDecibels :: real
  frequencyRange :: "real \<times> real"
  minAttackTime :: int
  maxAttackTime :: int
  debug :: bool

record optionsArg =
  argThreshold :: "real option"
  argMinDecibels :: "real option"
  argFrequencyRange :: "(real \<times> real) option"
  argMinAttackTime :: "int option"
  argMaxAttackTime :: "int option"
  argDebug :: "bool option"

text \<open>
  The fields of an AudioProcessor (the leading underscore of the source is dropped).
  The \<open>console.log\<close> output under \<open>debug\<close> has no effect on any of them and is left out.
\<close>

record audioProcessor =
  options :: options
  isListening :: bool
  audioContext :: "audioContext option"
  analyser :: "analyserNode option"
  microphone :: "sourceNode option"
  mediaStream :: "mediaStream option"
  lastClapTime :: int
  cooldownPeriod :: int
  analyserBufferLength :: nat
  timeData :: "real list option"
  frequencyData :: "real list option"
  animationFrame :: "nat option"

datatype processorEvent = StartEvent | StopEvent | ClapEvent | ErrorEvent error

text \<open>\<open>{ ...defaults, ...options }\<close>: a key that is present overrides the default.\<close>

definition orDefault :: "'a option \<Rightarrow> 'a \<Rightarrow> 'a" where
  "orDefault given dflt = (case given of Some v \<Rightarrow> v | None \<Rightarrow> dflt)"

definition mergeOptions :: "optionsArg \<Rightarrow> options" where
  "mergeOptions arg =
     \<lparr> threshold = orDefault (argThreshold arg) 0.3,
       minDecibels = orDefault (argMinDecibels arg) (- 45),
       frequencyRange = orDefault (argFrequencyRange arg) (2000, 4000),
       minAttackTime = orDefault (argMinAttackTime arg) 5,
       maxAttackTime = orDefault (argMaxAttackTime arg) 20,
       debug = orDefault (argDebug arg) False \<rparr>"

text \<open>The constructor: it stores the merged options and clears every other field.\<close>

definition AudioProcessor_new :: "optionsArg \<Rightarrow> audioProcessor" where
  "AudioProcessor_new arg =
     \<lparr> options = mergeOptions arg,
       isListening = False,
       audioContext = None,
       analyser = None,
       microphone = None,
       mediaStream = None,
       lastClapTime = 0,
       cooldownPeriod = 300,
       analyserBufferLength = 0,
       timeData = None,
       frequencyData = None,
       animationFrame = None \<rparr>"

text \<open>
  What the host answers during one call of \<open>start()\<close>: the outcome of
  \<open>new AudioContext()\<close>, of \<open>audioContext.resume()\<close> (\<open>None\<close>: resolved), of
  \<open>navigator.mediaDevices.getUserMedia\<close>, and the handle that \<open>requestAnimationFrame\<close>
  returns. Creating and connecting nodes on an existing context is taken not to fail.
\<close>

record captureHost =
  newAudioContext :: "error + audioContext"
  resumeOutcome :: "error option"
  getUserMedia :: "domException + mediaStream"
  rafHandle :: nat

definition createAudioContext :: "captureHost \<Rightarrow> error + audioContext" where
  "createAudioContext h = newAudioContext h"

definition requestMicrophoneAccess :: "captureHost \<Rightarrow> error + mediaStream" where
  "requestMicrophoneAccess h =
     (case getUserMedia h of
        Inr stream \<Rightarrow> Inr stream
      | Inl e \<Rightarrow>
          if excName e = ''NotAllowedError'' then
            Inl (Error ''Microphone access denied by user. Please allow microphone access to use clap detection.'')
          else if excName e = ''NotFoundError'' then
            Inl (Error ''No microphone detected on this device.'')
          else Inl (Error (''Failed to access microphone: '' @ excMessage e)))"

text \<open>
  \<open>_setupAudioProcessing\<close> reads \<open>this._audioContext\<close> and \<open>this._mediaStream\<close>; on
  \<open>null\<close> the property access throws. \<open>frequencyBinCount\<close> is half of \<open>fftSize\<close>; a
  new Float32Array is filled with zeros.
\<close>

definition setupAudioProcessing :: "audioProcessor \<Rightarrow> error + audioProcessor" where
  "setupAudioProcessing p =
     (case audioContext p of
        None \<Rightarrow> Inl TypeError
      | Some ctx \<Rightarrow>
          (case mediaStream p of
             None \<Rightarrow> Inl TypeError
           | Some stream \<Rightarrow>
               (let node = \<lparr> fftSize = 1024, smoothingTimeConstant = 0.2 \<rparr>;
                    bins = fftSize node div 2
                in Inr (p\<lparr> microphone := Some (MediaStreamSource stream),
                           analyser := Some node,
                           analyserBufferLength := bins,
                           timeData := Some (replicate bins 0),
                           frequencyData := Some (replicate bins 0) \<rparr>))))"

text \<open>\<open>_startAnalysis\<close> schedules the first analysis pass and keeps the handle.\<close>

definition startAnalysis :: "captureHost \<Rightarrow> audioProcessor \<Rightarrow> audioProcessor" where
  "startAnalysis h p = p\<lparr> animationFrame := Some (rafHandle h) \<rparr>"

text \<open>
  \<open>start()\<close>: the result is what the promise settles to (\<open>Inl\<close>: rejected with that
  error), the events emitted during the call, and the processor afterwards. The
  \<open>catch\<close> block emits \<open>error\<close> and rethrows; it undoes nothing.
\<close>

definition start ::
  "captureHost \<Rightarrow> audioProcessor \<Rightarrow> (error + unit) \<times> processorEvent list \<times> audioProcessor" where
  "start h p =
     (if isListening p then (Inr (), [], p)
      else
        (case (case audioContext p of None \<Rightarrow> createAudioContext h | Some ctx \<Rightarrow> Inr ctx) of
           Inl e \<Rightarrow> (Inl e, [ErrorEvent e], p)
         | Inr ctx \<Rightarrow>
             (let p1 = p\<lparr> audioContext := Some ctx \<rparr>
              in case (if ctxState ctx = Suspended then resumeOutcome h else None) of
                   Some e \<Rightarrow> (Inl e, [ErrorEvent e], p1)
                 | None \<Rightarrow>
                     (let p2 = p1\<lparr> audioContext := Some (ctx\<lparr> ctxState := Running \<rparr>) \<rparr>
                      in case requestMicrophoneAccess h of
                           Inl e \<Rightarrow> (Inl e, [ErrorEvent e], p2)
                         | Inr stream \<Rightarrow>
                             (case setupAudioProcessing (p2\<lparr> mediaStream := Some stream \<rparr>) of
                                Inl e \<Rightarrow> (Inl e, [ErrorEvent e], p2\<lparr> mediaStream := Some stream \<rparr>)
                              | Inr p3 \<Rightarrow>
                                  (Inr (), [StartEvent],
                                   startAnalysis h (p3\<lparr> isListening := True \<rparr>)))))))"

text \<open>
  \<open>stop()\<close>. \<open>if (this._animationFrame)\<close> is a truthiness test: a handle 0 counts as
  absent and is left in place.
\<close>

definition stop :: "audioProcessor \<Rightarrow> processorEvent list \<times> audioProcessor" where
  "stop p =
     (if \<not> isListening p then ([], p)
      else
        (let p1 = (case animationFrame p of
                     Some handle \<Rightarrow> if handle \<noteq> 0 then p\<lparr> animationFrame := None \<rparr> else p
                   | None \<Rightarrow> p)
         in ([StopEvent],
             p1\<lparr> microphone := None, mediaStream := None, isListening := False \<rparr>)))"

text \<open>
  One pass of the \<open>analyze\<close> closure of \<open>_startAnalysis\<close>. The tick holds what the host
  supplies during the pass: the samples \<open>getFloatTimeDomainData\<close> writes into
  \<open>_timeData\<close>, the magnitudes \<open>getFloatFrequencyData\<close> writes into \<open>_frequencyData\<close>
  (if it is called), the value of \<open>Date.now()\<close>, and the handle of the next
  \<open>requestAnimationFrame\<close>.
\<close>

record tick =
  tickTimeData :: "real list"
  tickFrequencyData :: "real list"
  tickNow :: int
  tickRaf :: nat

text \<open>
  What a pass did: returned at once (not listening), threw on a \<open>null\<close> analyser or
  context, stopped at the loudness test, or went on to compute the attack time and the
  dominant frequency; the last carries both values and whether \<open>clap\<close> was emitted.
\<close>

datatype frameResult =
    NotListening
  | Threw
  | GateClosed
  | Examined int real bool

definition analyze :: "tick \<Rightarrow> audioProcessor \<Rightarrow> frameResult \<times> audioProcessor" where
  "analyze tk p =
     (if \<not> isListening p then (NotListening, p)
      else
        (case analyser p of
           None \<Rightarrow> (Threw, p)
         | Some node \<Rightarrow>
             (let p1 = p\<lparr> timeData := Some (tickTimeData tk) \<rparr>;
                  next = (\<lambda>q. q\<lparr> animationFrame := Some (tickRaf tk) \<rparr>)
              in case calculateRMS (tickTimeData tk) of
                   None \<Rightarrow> (GateClosed, next p1)
                 | Some rms \<Rightarrow>
                     (let db = amplitudeToDecibels rms
                      in if db > minDecibels (options p) \<and> rms > threshold (options p) then
                           (let attackTime = getAttackTime (tickTimeData tk) (threshold (options p));
                                p2 = p1\<lparr> frequencyData := Some (tickFrequencyData tk) \<rparr>
                            in case audioContext p of
                                 None \<Rightarrow> (Threw, p2)
                               | Some ctx \<Rightarrow>
                                   (let dominantFreq =
                                          calculateDominantFrequency (tickFrequencyData tk)
                                            (sampleRate ctx) (real (fftSize node));
                                        isInFrequencyRange =
                                          (dominantFreq \<ge> fst (frequencyRange (options p)) \<and>
                                           dominantFreq \<le> snd (frequencyRange (options p)));
                                        hasCorrectAttackTime =
                                          (attackTime \<ge> minAttackTime (options p) \<and>
                                           attackTime \<le> maxAttackTime (options p));
                                        now = tickNow tk;
                                        timeSinceLastClap = now - lastClapTime p
                                    in if isInFrequencyRange \<and> hasCorrectAttackTime \<and>
                                          timeSinceLastClap > cooldownPeriod p
                                       then (Examined attackTime dominantFreq True,
                                             next (p2\<lparr> lastClapTime := now \<rparr>))
                                       else (Examined attackTime dominantFreq False, next p2)))
                         else (GateClosed, next p1)))))"

text \<open>Whether a pass emitted \<open>clap\<close>.\<close>

fun isClap :: "frameResult \<Rightarrow> bool" where
  "isClap (Examined attackTime dominantFreq emitted) = emitted"
| "isClap NotListening = False"
| "isClap Threw = False"
| "isClap GateClosed = False"

text \<open>The processor after a sequence of passes, and what the pass at position \<open>i\<close> did.\<close>

definition runTicks :: "tick list \<Rightarrow> audioProcessor \<Rightarrow> audioProcessor" where
  "runTicks tks p = fold (\<lambda>tk q. snd (analyze tk q)) tks p"

definition resultAt :: "tick list \<Rightarrow> audioProcessor \<Rightarrow> nat \<Rightarrow> frameResult" where
  "resultAt tks p i = fst (analyze (tks ! i) (runTicks (take i tks) p))"

text \<open>
  The amplitude, attack-time and frequency conditions of \<open>analyze\<close> for a tick, with the
  cooldown left out. They depend on the options, the analyser and the context only.
\<close>

definition qualifies :: "audioProcessor \<Rightarrow> tick \<Rightarrow> bool" where
  "qualifies p tk =
     (case (calculateRMS (tickTimeData tk), analyser p, audioContext p) of
        (Some rms, Some node, Some ctx) \<Rightarrow>
          (let attackTime = getAttackTime (tickTimeData tk) (threshold (options p));
               dominantFreq = calculateDominantFrequency (tickFrequencyData tk)
                                (sampleRate ctx) (real (fftSize node))
           in amplitudeToDecibels rms > minDecibels (options p) \<and> rms > threshold (options p) \<and>
              dominantFreq \<ge> fst (frequencyRange (options p)) \<and>
              dominantFreq \<le> snd (frequencyRange (options p)) \<and>
              attackTime \<ge> minAttackTime (options p) \<and>
              attackTime \<le> maxAttackTime (options p))
      | _ \<Rightarrow> False)"


section \<open>The state store (class StateManager)\<close>

text \<open>
  \<open>storageEntry\<close> is the item of \<open>localStorage\<close> under \<open>storageKey\<close> as this object last
  read or wrote it (\<open>None\<close>: no item, or no storage). The manager is an event emitter of
  its own: \<open>toggleEvents\<close> is the record of its \<open>emit('toggle', ...)\<close> calls, the payloads
  in order. \<open>setState\<close> and \<open>toggle\<close> return their result and the manager afterwards.
\<close>

record stateManagerOptions =
  smStatePersistence :: bool
  storageKey :: string
  initialState :: bool

record stateManager =
  smOptions :: stateManagerOptions
  state :: bool
  storageEntry :: "string option"
  toggleEvents :: "bool list"

definition getInitialState :: "stateManagerOptions \<Rightarrow> string option \<Rightarrow> bool" where
  "getInitialState opts stored =
     (if smStatePersistence opts then
        (case stored of Some savedState \<Rightarrow> savedState = ''true'' | None \<Rightarrow> initialState opts)
      else initialState opts)"

definition StateManager_new :: "bool option \<Rightarrow> string option \<Rightarrow> stateManager" where
  "StateManager_new argStatePersistence stored =
     (let opts = \<lparr> smStatePersistence = orDefault argStatePersistence False,
                    storageKey = ''ovation_state'',
                    initialState = False \<rparr>
      in \<lparr> smOptions = opts, state = getInitialState opts stored, storageEntry = stored,
           toggleEvents = [] \<rparr>)"

definition persistState :: "stateManager \<Rightarrow> stateManager" where
  "persistState sm =
     (if smStatePersistence (smOptions sm)
      then sm\<lparr> storageEntry := Some (if state sm then ''true'' else ''false'') \<rparr>
      else sm)"

definition setState :: "bool \<Rightarrow> stateManager \<Rightarrow> bool \<times> stateManager" where
  "setState newState sm =
     (if newState = state sm then (False, sm)
      else (let sm1 = persistState (sm\<lparr> state := newState \<rparr>);
                sm2 = sm1\<lparr> toggleEvents := toggleEvents sm1 @ [state sm1] \<rparr>
            in (True, sm2)))"

definition toggle :: "stateManager \<Rightarrow> bool \<times> stateManager" where
  "toggle sm =
     (let newState = \<not> state sm;
          (changed, sm1) = setState newState sm
      in (newState, sm1))"

text \<open>
  The methods \<open>on()\<close> and \<open>off()\<close> of the manager. They take no argument, and they
  replace, on a StateManager, the \<open>on(event, callback)\<close> and \<open>off(event, callback)\<close> that
  EventEmitter defines.
\<close>

definition StateManager_on :: "stateManager \<Rightarrow> bool \<times> stateManager" where
  "StateManager_on sm = setState True sm"

definition StateManager_off :: "stateManager \<Rightarrow> bool \<times> stateManager" where
  "StateManager_off sm = setState False sm"

section \<open>The clap switch (class ClapSwitch) and the host's timers\<close>

record switchOptions =
  requiredClaps :: int
  clapTimeout :: int
  clapInterval :: int
  swThreshold :: real
  swMinDecibels :: real
  swFrequencyRange :: "real \<times> real"
  autoStart :: bool
  statePersistence :: bool
  swDebug :: bool

record switchOptionsArg =
  argRequiredClaps :: "int option"
  argClapTimeout :: "int option"
  argClapInterval :: "int option"
  argSwThreshold :: "real option"
  argSwMinDecibels :: "real option"
  argSwFrequencyRange :: "(real \<times> real) option"
  argAutoStart :: "bool option"
  argStatePersistence :: "bool option"
  argSwDebug :: "bool option"

text \<open>
  The events the switch emits: \<open>clap\<close>, \<open>pattern\<close>, \<open>pattern-canceled\<close>, \<open>start\<close> and
  \<open>error\<close>. (\<open>stop()\<close> is not modelled. The \<open>emit('toggle', ...)\<close> of the switch stands in
  a callback that is never registered, see \<open>setupEventListeners\<close>.)
\<close>

datatype switchEvent =
    Clap int
  | Pattern int
  | PatternCanceled int
  | Started
  | SwitchError error

text \<open>
  The host's timer queue. A pending timer has the handle \<open>setTimeout\<close> returned, the
  time at which it is due, and the closure to run: the pattern timeout of \<open>_handleClap\<close>
  or the delayed \<open>start()\<close> of the constructor. The host also holds the clock (in ms),
  the record of every \<open>emit\<close> of the switch, with the time of the call, and the number
  of calls of \<open>start()\<close> whose promise has not settled yet.
\<close>

datatype callback = CancelPattern | AutoStart

record timer =
  timerId :: nat
  due :: int
  callback :: callback

record host =
  now :: int
  nextTimerId :: nat
  timers :: "timer list"
  emitted :: "(int \<times> switchEvent) list"
  startsPending :: nat

definition emit :: "switchEvent \<Rightarrow> host \<Rightarrow> host" where
  "emit ev h = h\<lparr> emitted := emitted h @ [(now h, ev)] \<rparr>"

text \<open>
  \<open>setTimeout(cb, delay)\<close> returns a fresh handle and queues the timer at \<open>now + delay\<close>
  (a negative delay counts as 0); \<open>clearTimeout(id)\<close> drops the timer with that handle,
  and does nothing when there is none.
\<close>

definition setTimeout :: "callback \<Rightarrow> int \<Rightarrow> host \<Rightarrow> nat \<times> host" where
  "setTimeout cb delay h =
     (nextTimerId h,
      h\<lparr> nextTimerId := Suc (nextTimerId h),
         timers := timers h @ [\<lparr> timerId = nextTimerId h, due = now h + max 0 delay, callback = cb \<rparr>] \<rparr>)"

definition clearTimeout :: "nat \<Rightarrow> host \<Rightarrow> host" where
  "clearTimeout i h = h\<lparr> timers := filter (\<lambda>t. timerId t \<noteq> i) (timers h) \<rparr>"

record clapSwitch =
  swOptions :: switchOptions
  audioProcessor :: audioProcessor
  stateManager :: stateManager
  clapCount :: int
  clapTimer :: "nat option"

text \<open>
  The constructor returns early, with the options only, when the Web Audio API is
  missing; otherwise every field is set.
\<close>

datatype clapSwitchObject = Unsupported switchOptions | Ready clapSwitch

definition mergeSwitchOptions :: "switchOptionsArg \<Rightarrow> switchOptions" where
  "mergeSwitchOptions arg =
     \<lparr> requiredClaps = orDefault (argRequiredClaps arg) 2,
       clapTimeout = orDefault (argClapTimeout arg) 1000,
       clapInterval = orDefault (argClapInterval arg) 500,
       swThreshold = orDefault (argSwThreshold arg) 0.3,
       swMinDecibels = orDefault (argSwMinDecibels arg) (- 45),
       swFrequencyRange = orDefault (argSwFrequencyRange arg) (2000, 4000),
       autoStart = orDefault (argAutoStart arg) False,
       statePersistence = orDefault (argStatePersistence arg) False,
       swDebug = orDefault (argSwDebug arg) False \<rparr>"

text \<open>
  \<open>_setupEventListeners\<close>. Its first statement is
  \<open>this._stateManager.on('toggle', isOn => { this.emit('toggle', isOn) })\<close>. On a
  StateManager \<open>on\<close> is the method that turns the store on, whatever it is passed: the
  call registers no listener and sets the state to \<open>true\<close>. So the \<open>toggle\<close> events of
  the store reach nobody, and the switch never emits \<open>toggle\<close>. AudioProcessor
  defines no \<open>on\<close> of its own: the listeners for its \<open>error\<close> and \<open>clap\<close> events are
  registered (\<open>processorListener\<close> below).
\<close>

definition setupEventListeners :: "clapSwitch \<Rightarrow> clapSwitch" where
  "setupEventListeners sw =
     (let (changed, sm1) = StateManager_on (stateManager sw)
      in sw\<lparr> stateManager := sm1 \<rparr>)"

text \<open>
  The switch the constructor builds once the capability check has passed: the two
  components, built from the options, the pattern state, and then
  \<open>_setupEventListeners\<close>.
\<close>

definition initialSwitch :: "switchOptions \<Rightarrow> string option \<Rightarrow> clapSwitch" where
  "initialSwitch opts stored =
     setupEventListeners
       \<lparr> swOptions = opts,
         audioProcessor = AudioProcessor_new
           \<lparr> argThreshold = Some (swThreshold opts),
             argMinDecibels = Some (swMinDecibels opts),
             argFrequencyRange = Some (swFrequencyRange opts),
             argMinAttackTime = None,
             argMaxAttackTime = None,
             argDebug = Some (swDebug opts) \<rparr>,
         stateManager = StateManager_new (Some (statePersistence opts)) stored,
         clapCount = 0,
         clapTimer = None \<rparr>"

text \<open>
  \<open>new ClapSwitch(options)\<close>, given whether the Web Audio API is there and what
  \<open>localStorage\<close> holds. No option is examined before it is stored.
\<close>

definition ClapSwitch_new ::
  "bool \<Rightarrow> string option \<Rightarrow> switchOptionsArg \<Rightarrow> host \<Rightarrow> clapSwitchObject \<times> host" where
  "ClapSwitch_new isAudioSupported stored arg h =
     (let opts = mergeSwitchOptions arg
      in if \<not> isAudioSupported then
           (Unsupported opts,
            emit (SwitchError (Error ''Web Audio API is not supported in this browser.'')) h)
         else
           (let sw = initialSwitch opts stored
            in if autoStart opts then (Ready sw, snd (setTimeout AutoStart 100 h))
               else (Ready sw, h)))"

text \<open>
  \<open>_handleClap\<close>. \<open>if (this._clapTimer)\<close> is a truthiness test: \<open>null\<close> and the handle 0
  count as absent. The handle is not set back to \<open>null\<close> anywhere. The store's
  \<open>toggle()\<close> emits the store's own \<open>toggle\<close> event, which has no listener.
\<close>

definition handleClap :: "clapSwitch \<times> host \<Rightarrow> clapSwitch \<times> host" where
  "handleClap w =
     (let (sw, h) = w;
          sw1 = sw\<lparr> clapCount := clapCount sw + 1 \<rparr>;
          h1 = (case clapTimer sw1 of
                  Some i \<Rightarrow> if i \<noteq> 0 then clearTimeout i h else h
                | None \<Rightarrow> h)
      in if clapCount sw1 \<ge> requiredClaps (swOptions sw1) then
           (let h2 = emit (Pattern (clapCount sw1)) h1;
                (newState, sm1) = toggle (stateManager sw1)
            in (sw1\<lparr> stateManager := sm1, clapCount := 0 \<rparr>, h2))
         else
           (let (i, h2) = setTimeout CancelPattern (clapTimeout (swOptions sw1)) h1
            in (sw1\<lparr> clapTimer := Some i \<rparr>, h2)))"

text \<open>The listener of the processor's \<open>clap\<close> event.\<close>

definition onClap :: "clapSwitch \<times> host \<Rightarrow> clapSwitch \<times> host" where
  "onClap w = (let (sw, h) = w in handleClap (sw, emit (Clap (clapCount sw + 1)) h))"

text \<open>
  The listeners that \<open>_setupEventListeners\<close> registers on the audio processor: \<open>error\<close>
  is passed on, \<open>clap\<close> is counted. Nothing listens for the processor's \<open>start\<close> and
  \<open>stop\<close>.
\<close>

fun processorListener :: "processorEvent \<Rightarrow> clapSwitch \<times> host \<Rightarrow> clapSwitch \<times> host" where
  "processorListener (ErrorEvent e) w = (fst w, emit (SwitchError e) (snd w))"
| "processorListener ClapEvent w = onClap w"
| "processorListener StartEvent w = w"
| "processorListener StopEvent w = w"

text \<open>
  \<open>start()\<close> of the switch is an async function. Called on a switch that passed the
  capability check, it emits nothing before \<open>hasMicrophoneSupport()\<close> has answered.
  \<open>switchStart\<close> is what it does from there, given that answer and what the capture host
  answers to the processor: without a microphone it emits \<open>error\<close>; otherwise the
  processor starts, its events reaching the listeners above, and the switch emits \<open>start\<close>
  on success and \<open>error\<close> (once more) on failure. The result is what the promise settles
  to. The awaits inside are taken in one step: between them only fields of the audio
  processor change.
\<close>

definition switchStart ::
  "bool \<Rightarrow> captureHost \<Rightarrow> clapSwitch \<times> host \<Rightarrow> (error + unit) \<times> clapSwitch \<times> host" where
  "switchStart hasMicrophone ch w =
     (let (sw, h) = w
      in if \<not> hasMicrophone then
           (let e = Error ''No microphone detected on this device.''
            in (Inl e, sw, emit (SwitchError e) h))
         else
           (let (res, evs, p) = start ch (audioProcessor sw);
                (sw1, h1) = fold processorListener evs (sw\<lparr> audioProcessor := p \<rparr>, h)
            in case res of
                 Inr u \<Rightarrow> (Inr (), sw1, emit Started h1)
               | Inl e \<Rightarrow> (Inl e, sw1, emit (SwitchError e) h1)))"

text \<open>
  A pending \<open>start()\<close> goes on once the host has the answers; with none pending nothing
  happens.
\<close>

definition settleStart :: "bool \<Rightarrow> captureHost \<Rightarrow> clapSwitch \<times> host \<Rightarrow> clapSwitch \<times> host" where
  "settleStart hasMicrophone ch w =
     (let (sw, h) = w
      in if startsPending h = 0 then w
         else snd (switchStart hasMicrophone ch (sw, h\<lparr> startsPending := startsPending h - 1 \<rparr>)))"

text \<open>
  The closure passed to \<open>setTimeout\<close> in \<open>_handleClap\<close>, and the one of the constructor,
  \<open>() => this.start()\<close>: the call returns its promise at once, and the start is pending
  from then on.
\<close>

definition cancelPattern :: "clapSwitch \<times> host \<Rightarrow> clapSwitch \<times> host" where
  "cancelPattern w =
     (let (sw, h) = w;
          h1 = (if clapCount sw > 0 then emit (PatternCanceled (clapCount sw)) h else h)
      in (sw\<lparr> clapCount := 0 \<rparr>, h1))"

fun runCallback :: "callback \<Rightarrow> clapSwitch \<times> host \<Rightarrow> clapSwitch \<times> host" where
  "runCallback CancelPattern w = cancelPattern w"
| "runCallback AutoStart w = (fst w, (snd w)\<lparr> startsPending := Suc (startsPending (snd w)) \<rparr>)"

text \<open>The host runs a pending timer: it leaves the queue and its closure is called.\<close>

definition fireTimer :: "timer \<Rightarrow> clapSwitch \<times> host \<Rightarrow> clapSwitch \<times> host" where
  "fireTimer t w =
     (let (sw, h) = w
      in if t \<in> set (timers h)
         then runCallback (callback t) (sw, h\<lparr> timers := remove1 t (timers h) \<rparr>)
         else w)"

text \<open>The pending timer that is due first (the one queued first, among equals).\<close>

fun earliest :: "timer list \<Rightarrow> timer option" where
  "earliest [] = None"
| "earliest (t # ts) =
     (case earliest ts of
        None \<Rightarrow> Some t
      | Some u \<Rightarrow> if due u < due t then Some u else Some t)"

definition nextDue :: "int \<Rightarrow> timer list \<Rightarrow> timer option" where
  "nextDue t ts = earliest (filter (\<lambda>x. due x \<le> t) ts)"

text \<open>
  Time passes up to \<open>t\<close>: the timers due by then run in the order of their due times,
  each at its due time, and the clock ends at \<open>t\<close>. No closure queues a timer, so every
  round shortens the queue.
\<close>

function advanceTo :: "int \<Rightarrow> clapSwitch \<times> host \<Rightarrow> clapSwitch \<times> host" where
  "advanceTo t (sw, h) =
     (case nextDue t (timers h) of
        None \<Rightarrow> (sw, h\<lparr> now := max (now h) t \<rparr>)
      | Some u \<Rightarrow> advanceTo t (fireTimer u (sw, h\<lparr> now := max (now h) (due u) \<rparr>)))"
  by pat_completeness auto
termination
proof (relation "measure (\<lambda>(t, sw, h). length (timers h))")
  show "wf (measure (\<lambda>(t, sw, h). length (timers h)))" by simp
next
  fix t :: int and sw :: clapSwitch and h :: host and u :: timer
  assume "nextDue t (timers h) = Some u"
  have pick: "earliest ts = Some v \<Longrightarrow> v \<in> set ts" for ts v
    by (induction ts arbitrary: v) (auto split: option.splits if_splits)
  have queue: "timers (snd (runCallback cb (s, g))) = timers g" for cb s g
    by (cases cb) (simp_all add: cancelPattern_def emit_def)
  from \<open>nextDue t (timers h) = Some u\<close> have mem: "u \<in> set (timers h)"
    using pick[of "filter (\<lambda>x. due x \<le> t) (timers h)" u] by (simp add: nextDue_def)
  then have "length (remove1 u (timers h)) < length (timers h)"
    by (simp add: length_remove1) (cases "timers h"; simp)
  then have "length (timers (snd (fireTimer u (sw, h\<lparr> now := max (now h) (due u) \<rparr>)))) < length (timers h)"
    using mem by (simp add: fireTimer_def queue)
  then show "((t, fireTimer u (sw, h\<lparr> now := max (now h) (due u) \<rparr>)), (t, sw, h))
               \<in> measure (\<lambda>(t, sw, h). length (timers h))"
    by (simp add: split_def)
qed

declare advanceTo.simps [simp del]

text \<open>
  What happens to the switch: a clap is detected, the host runs a pending timer, time
  passes, or a pending \<open>start()\<close> goes on with the answers of the host. A clap at time
  \<open>t\<close> is time passing up to \<open>t\<close>, then the clap.
\<close>

datatype input = ClapDetected | TimerFires timer | TimePasses int | StartSettles bool captureHost

fun step :: "input \<Rightarrow> clapSwitch \<times> host \<Rightarrow> clapSwitch \<times> host" where
  "step ClapDetected w = onClap w"
| "step (TimerFires u) w = fireTimer u w"
| "step (TimePasses t) w = advanceTo t w"
| "step (StartSettles hasMicrophone ch) w = settleStart hasMicrophone ch w"

definition clapAt :: "int \<Rightarrow> clapSwitch \<times> host \<Rightarrow> clapSwitch \<times> host" where
  "clapAt t w = onClap (advanceTo t w)"

definition feedClaps :: "int list \<Rightarrow> clapSwitch \<times> host \<Rightarrow> clapSwitch \<times> host" where
  "feedClaps ts w = fold clapAt ts w"

text \<open>The pattern timers that are pending: the window deadline, when there is one.\<close>

definition pendingDeadlines :: "host \<Rightarrow> timer list" where
  "pendingDeadlines h = filter (\<lambda>t. callback t = CancelPattern) (timers h)"

text \<open>Clap times in order, each less than \<open>d\<close> ms after the one before.\<close>

fun spaced :: "int \<Rightarrow> int list \<Rightarrow> bool" where
  "spaced d [] = True"
| "spaced d [t] = True"
| "spaced d (t # u # ts) = (t \<le> u \<and> u - t < d \<and> spaced d (u # ts))"


section \<open>Notions used to state the properties\<close>

text \<open>
  The log entries of a run of claps at the times \<open>ts\<close>, the count standing at \<open>c\<close>
  before the first: one \<open>clap\<close> event per clap, carrying the running count.
\<close>

fun clapEntries :: "int \<Rightarrow> int list \<Rightarrow> (int \<times> switchEvent) list" where
  "clapEntries c [] = []"
| "clapEntries c (t # ts) = (t, Clap (c + 1)) # clapEntries (c + 1) ts"

text \<open>
  The window of a pattern with \<open>c\<close> claps counted: for \<open>c = 0\<close> no pattern timer is
  pending; otherwise exactly one is, due at \<open>d\<close>, and \<open>_clapTimer\<close> holds its handle.
  The host hands out handles from 1 upwards.
\<close>

definition openWindow :: "int \<Rightarrow> int \<Rightarrow> clapSwitch \<times> host \<Rightarrow> bool" where
  "openWindow c d w =
     (let (sw, h) = w
      in clapCount sw = c \<and> nextTimerId h \<noteq> 0 \<and>
         (if c = 0 then pendingDeadlines h = []
          else (case clapTimer sw of
                  None \<Rightarrow> False
                | Some i \<Rightarrow> i \<noteq> 0 \<and>
                    pendingDeadlines h = [\<lparr> timerId = i, due = d, callback = CancelPattern \<rparr>])))"

text \<open>
  The invariant of the pattern machine: the count is never negative, it is 0 or below
  \<open>requiredClaps\<close>, and the window of pending pattern timers matches it.
\<close>

definition patternInv :: "clapSwitch \<times> host \<Rightarrow> bool" where
  "patternInv w =
     (let (sw, h) = w
      in 0 \<le> clapCount sw \<and>
         (clapCount sw = 0 \<or> clapCount sw < requiredClaps (swOptions sw)) \<and>
         (\<exists>d. openWindow (clapCount sw) d w))"

text \<open>
  An input that runs no pattern timer: a clap, the host running a timer that is not a
  pending pattern timer, time passing to a point before every pending pattern timer
  is due, or a start going on. A sequence of inputs during which no pattern timeout
  fires, and the number of claps in it.
\<close>

fun quietInput :: "input \<Rightarrow> clapSwitch \<times> host \<Rightarrow> bool" where
  "quietInput ClapDetected w = True"
| "quietInput (TimerFires u) w = (u \<notin> set (pendingDeadlines (snd w)))"
| "quietInput (TimePasses t) w = list_all (\<lambda>u. t < due u) (pendingDeadlines (snd w))"
| "quietInput (StartSettles hasMicrophone ch) w = True"

fun noTimeout :: "input list \<Rightarrow> clapSwitch \<times> host \<Rightarrow> bool" where
  "noTimeout [] w = True"
| "noTimeout (i # ins) w = (quietInput i w \<and> noTimeout ins (step i w))"

definition clapsIn :: "input list \<Rightarrow> nat" where
  "clapsIn ins = length (filter (\<lambda>i. i = ClapDetected) ins)"

text \<open>The events of the host's log in order, without the times.\<close>

definition events :: "host \<Rightarrow> switchEvent list" where
  "events h = map snd (emitted h)"

text \<open>
  The events of the pattern machine (\<open>clap\<close>, \<open>pattern\<close>, \<open>pattern-canceled\<close>), as
  opposed to those of starting.
\<close>

fun patternEvent :: "switchEvent \<Rightarrow> bool" where
  "patternEvent (Clap n) = True"
| "patternEvent (Pattern n) = True"
| "patternEvent (PatternCanceled n) = True"
| "patternEvent Started = False"
| "patternEvent (SwitchError e) = False"

definition patternLog :: "host \<Rightarrow> switchEvent list" where
  "patternLog h = filter patternEvent (events h)"

text \<open>The events \<open>clap (c + 1), ..., clap (c + n)\<close>.\<close>

fun clapEvents :: "int \<Rightarrow> nat \<Rightarrow> switchEvent list" where
  "clapEvents c 0 = []"
| "clapEvents c (Suc n) = Clap (c + 1) # clapEvents (c + 1) n"


section \<open>Concrete hosts and inputs\<close>

text \<open>
  A host that grants everything (a running context at 44100 Hz, as in the test setup),
  one that grants everything with contexts at 48000 Hz, one whose user refuses the
  microphone, and the options object \<open>{}\<close>.
\<close>

definition grantingHost :: captureHost where
  "grantingHost =
     \<lparr> newAudioContext = Inr \<lparr> ctxState = Running, sampleRate = 44100 \<rparr>,
       resumeOutcome = None,
       getUserMedia = Inr (MediaStream 1),
       rafHandle = 1 \<rparr>"



definition noOptions :: optionsArg where
  "noOptions =
     \<lparr> argThreshold = None, argMinDecibels = None, argFrequencyRange = None,
       argMinAttackTime = None, argMaxAttackTime = None, argDebug = None \<rparr>"

definition noSwitchOptions :: switchOptionsArg where
  "noSwitchOptions =
     \<lparr> argRequiredClaps = None, argClapTimeout = None, argClapInterval = None,
       argSwThreshold = None, argSwMinDecibels = None, argSwFrequencyRange = None,
       argAutoStart = None, argStatePersistence = None, argSwDebug = None \<rparr>"

text \<open>A processor that has been started on the granting host with the default options.\<close>

definition listeningProcessor :: audioProcessor where
  "listeningProcessor = snd (snd (start grantingHost (AudioProcessor_new noOptions)))"

text \<open>
  A frame with RMS 0.5 whose peak, at index 6, is reached over six samples; a spectrum
  whose only positive magnitude is at bin 70 (3014.6 Hz at 44100 Hz and \<open>fftSize\<close>
  1024); and a frame with RMS 0.125.
\<close>

definition clapFrame :: "real list" where
  "clapFrame = [0, 0.5, 0.5, 0.5, 0.5, 0.5, 1, 0, 0]"

definition clapSpectrum :: "real list" where
  "clapSpectrum = replicate 70 (- 80) @ [10]"

definition quietFrame :: "real list" where
  "quietFrame = [0.125, - 0.125, 0.125, - 0.125]"

text \<open>
  A frame of 512 samples that all hold the Float32Array value \<open>13630837 / 2 ^ 24\<close>
  (0.8124611973762512), a threshold that is the next double above that value
  (0.8124611973762513), a processor started with that threshold, and a pass of the
  analysis on that frame.
\<close>

definition roundingSample :: real where
  "roundingSample = 13630837 / 16777216"

definition roundingFrame :: "real list" where
  "roundingFrame = replicate 512 roundingSample"

definition roundingThreshold :: real where
  "roundingThreshold = 7317999891513345 / 9007199254740992"

definition thresholdProcessor :: audioProcessor where
  "thresholdProcessor =
     snd (snd (start grantingHost (AudioProcessor_new (noOptions\<lparr> argThreshold := Some roundingThreshold \<rparr>))))"

definition roundingTick :: tick where
  "roundingTick =
     \<lparr> tickTimeData = roundingFrame, tickFrequencyData = clapSpectrum, tickNow = 1000, tickRaf = 2 \<rparr>"

definition clapTick :: "int \<Rightarrow> tick" where
  "clapTick t =
     \<lparr> tickTimeData = clapFrame, tickFrequencyData = clapSpectrum, tickNow = t, tickRaf = 2 \<rparr>"

text \<open>
  A timer host at time 0 with an empty queue, and switches built by the constructor on
  it: the default one, and one that asks for three claps.
\<close>

definition freshHost :: host where
  "freshHost = \<lparr> now = 0, nextTimerId = 1, timers = [], emitted = [], startsPending = 0 \<rparr>"

definition defaultSwitch :: clapSwitch where
  "defaultSwitch = initialSwitch (mergeSwitchOptions noSwitchOptions) None"

definition threeClapSwitch :: clapSwitch where
  "threeClapSwitch =
     initialSwitch (mergeSwitchOptions (noSwitchOptions\<lparr> argRequiredClaps := Some 3 \<rparr>)) None"

text \<open>
  The switch built with \<open>autoStart: true\<close> on the fresh host, and the host after its
  constructor has queued the delayed start.
\<close>

definition autoStartSwitch :: clapSwitch where
  "autoStartSwitch =
     initialSwitch (mergeSwitchOptions (noSwitchOptions\<lparr> argAutoStart := Some True \<rparr>)) None"

definition autoStartHost :: host where
  "autoStartHost = snd (setTimeout AutoStart 100 freshHost)"

text \<open>Options that ask for zero claps and give the frequency range upside down.\<close>

definition invalidSwitchOptions :: switchOptionsArg where
  "invalidSwitchOptions =
     noSwitchOptions\<lparr> argRequiredClaps := Some 0, argSwFrequencyRange := Some (4000, 2000) \<rparr>"

section \<open>The specification's descriptions, for comparison with the code\<close>

text \<open>
  The attack time as the specification words it: the peak value is the largest absolute
  sample and the peak index the first position where it occurs; below the threshold the
  result is the sentinel \<open>-1\<close>; otherwise the walk goes back from the peak over the
  positions \<open>peak_index, ..., 1\<close> for as long as the absolute sample exceeds a tenth of
  the threshold, and the result is the peak index minus the position where it ends.
\<close>

definition attack_time_spec :: "real list \<Rightarrow> real \<Rightarrow> int" where
  "attack_time_spec buffer amplitude_threshold =
     (let peak_value = Max (set (map abs buffer));
          peak_index = length (takeWhile (\<lambda>x. \<bar>x\<bar> \<noteq> peak_value) buffer);
          walked = takeWhile (\<lambda>j. \<bar>buffer ! j\<bar> > amplitude_threshold * 0.1) (rev [1..<Suc peak_index]);
          final_index = peak_index - length walked
      in if peak_value < amplitude_threshold then - 1 else int peak_index - int final_index)"

text \<open>
  The root mean square of a frame as the specification defines it, in exact arithmetic:
  the square root of the mean of the squared samples.
\<close>

definition root_mean_square :: "real list \<Rightarrow> real" where
  "root_mean_square frame = sqrt (sum_list (map (\<lambda>x. x * x) frame) / real (length frame))"

text \<open>
  The ranges the specification gives for the configuration of a clap switch:
  \<open>required_claps \<ge> 1\<close>, \<open>clap_timeout_ms \<ge> 0\<close>, an amplitude threshold strictly
  between 0 and 1, and a frequency range with \<open>low < high\<close>.
\<close>

definition spec_valid_config :: "switchOptions \<Rightarrow> bool" where
  "spec_valid_config opts =
     (requiredClaps opts \<ge> 1 \<and> clapTimeout opts \<ge> 0 \<and>
      0 < swThreshold opts \<and> swThreshold opts < 1 \<and>
      fst (swFrequencyRange opts) < snd (swFrequencyRange opts))"

section \<open>Properties of the audio utilities\<close>

lemma dominantLoop_none_above:
  "\<forall>x\<in>set xs. x \<le> maxValue \<Longrightarrow> dominantLoop xs i (maxIndex, maxValue) = (maxIndex, maxValue)"
  by (induction xs arbitrary: i) auto

lemma dominant_frequency_nonpositive_spectrum:
  "\<forall>x\<in>set spectrum. x \<le> 0 \<Longrightarrow> calculateDominantFrequency spectrum rate fft = 0"
  by (simp add: calculateDominantFrequency_def dominantLoop_none_above)

text \<open>
  C3 (dominant frequency). The search starts from \<open>maxValue = 0\<close> and replaces it only by
  a strictly larger magnitude, so on a spectrum in decibels, where every magnitude is
  negative, no bin is ever selected and the result is bin 0. For the two-bin
  spectrum \<open>[-80, -20]\<close> at 44100 Hz and \<open>fftSize = 1024\<close> the code returns 0 Hz; the only
  bin of maximal magnitude is bin 1, whose frequency is \<open>1 * 44100 / 1024\<close> Hz.
\<close>

theorem dominant_frequency_negative_spectrum:
  "calculateDominantFrequency [- 80, - 20] 44100 1024 = 0 \<and>
   Max (set [- 80, - 20 :: real]) = - 20 \<and>
   [- 80, - 20 :: real] ! 1 = - 20 \<and>
   [- 80, - 20 :: real] ! 0 \<noteq> - 20 \<and>
   real 1 * 44100 / 1024 \<noteq> (0 :: real)"
  by (simp add: calculateDominantFrequency_def)


text \<open>What the two loops of \<open>getAttackTime\<close> compute.\<close>

lemma peakLoop_char:
  "peakLoop xs i (p0, pv) =
     (if \<forall>x\<in>set xs. \<bar>x\<bar> \<le> pv then (p0, pv)
      else (i + length (takeWhile (\<lambda>x. \<bar>x\<bar> \<noteq> Max (set (map abs xs))) xs),
            Max (set (map abs xs))))"
proof (induction xs arbitrary: i p0 pv)
  case Nil
  then show ?case by simp
next
  case (Cons x xs)
  show ?case
  proof (cases "xs = []")
    case True
    then show ?thesis by auto
  next
    case False
    then have M: "Max (set (map abs (x # xs))) = max \<bar>x\<bar> (Max (set (map abs xs)))"
      by simp
    have ex: "(\<not> (\<forall>y\<in>set xs. \<bar>y\<bar> \<le> b)) \<longleftrightarrow> b < Max (set (map abs xs))" for b
      using False by (auto simp: Max_gr_iff not_le)
    show ?thesis
    proof (cases "\<bar>x\<bar> > pv")
      case True
      show ?thesis
      proof (cases "\<forall>y\<in>set xs. \<bar>y\<bar> \<le> \<bar>x\<bar>")
        case all: True
        then have "Max (set (map abs xs)) \<le> \<bar>x\<bar>" using False by (auto simp: Max_le_iff)
        then have "Max (set (map abs (x # xs))) = \<bar>x\<bar>" unfolding M by simp
        then show ?thesis
          using True all Cons.IH[of "Suc i" i "\<bar>x\<bar>"] by (auto simp del: set_map)
      next
        case nall: False
        then have lt: "\<bar>x\<bar> < Max (set (map abs xs))" using ex by blast
        then have "Max (set (map abs (x # xs))) = Max (set (map abs xs))" unfolding M by simp
        then show ?thesis
          using True nall lt Cons.IH[of "Suc i" i "\<bar>x\<bar>"] by (auto simp del: set_map)
      qed
    next
      case le: False
      show ?thesis
      proof (cases "\<forall>y\<in>set xs. \<bar>y\<bar> \<le> pv")
        case True
        then show ?thesis using le Cons.IH[of "Suc i" p0 pv] by auto
      next
        case nall: False
        then have lt: "pv < Max (set (map abs xs))" using ex by blast
        then have "Max (set (map abs (x # xs))) = Max (set (map abs xs))"
          and "\<bar>x\<bar> \<noteq> Max (set (map abs xs))"
          unfolding M using le by auto
        then show ?thesis
          using le nall lt Cons.IH[of "Suc i" p0 pv] by (auto simp del: set_map)
      qed
    qed
  qed
qed

lemma peakLoop_from_start:
  assumes "buffer \<noteq> []"
  shows "peakLoop buffer 0 (0, 0) =
     (length (takeWhile (\<lambda>x. \<bar>x\<bar> \<noteq> Max (set (map abs buffer))) buffer),
      Max (set (map abs buffer)))"
proof (cases "\<forall>x\<in>set buffer. \<bar>x\<bar> \<le> 0")
  case True
  then have z: "\<forall>x\<in>set buffer. \<bar>x\<bar> = 0" by auto
  then have "set (map abs buffer) = {0}" using assms by (cases buffer) auto
  then have M: "Max (set (map abs buffer)) = 0" by simp
  have "takeWhile (\<lambda>x. \<bar>x\<bar> \<noteq> 0) buffer = []" using assms z by (cases buffer) auto
  then show ?thesis using True M by (simp add: peakLoop_char del: set_map)
next
  case False
  then have "peakLoop buffer 0 (0, 0) =
      (0 + length (takeWhile (\<lambda>x. \<bar>x\<bar> \<noteq> Max (set (map abs buffer))) buffer),
       Max (set (map abs buffer)))"
    by (subst peakLoop_char) (simp only: if_False)
  then show ?thesis by simp
qed

lemma attackWalk_char:
  "attackWalk buffer st p = p - length (takeWhile (\<lambda>j. \<bar>buffer ! j\<bar> > st) (rev [1..<Suc p]))"
proof (induction p)
  case 0
  then show ?case by simp
next
  case (Suc n)
  have "rev [1..<Suc (Suc n)] = Suc n # rev [1..<Suc n]" by simp
  then show ?case using Suc by (simp del: upt_Suc)
qed

lemma attackWalk_le: "attackWalk buffer st p \<le> p"
  by (induction p) auto

lemma attackWalk_diff: "0 \<le> int p - int (attackWalk buffer st p)"
  using attackWalk_le[of buffer st p] by simp

lemma getAttackTime_lower: "- 1 \<le> getAttackTime buffer thr"
proof -
  have "- 1 \<le> int p - int (attackWalk buffer st p)" for p st
    using attackWalk_diff[of p buffer st] by linarith
  then show ?thesis by (simp add: getAttackTime_def Let_def split: prod.split)
qed

text \<open>
  C6 (attack-time algorithm). On every non-empty frame and for every threshold,
  \<open>getAttackTime\<close> returns what the specification describes: \<open>-1\<close> when the largest
  absolute sample is below the threshold, and otherwise the distance from the first
  position of that largest sample back to where the walk over samples above a tenth of the
  threshold ends, index 0 at the latest.
\<close>

theorem getAttackTime_meets_spec:
  "buffer \<noteq> [] \<Longrightarrow> getAttackTime buffer thr = attack_time_spec buffer thr"
  by (simp add: getAttackTime_def attack_time_spec_def peakLoop_from_start attackWalk_char
      Let_def del: set_map upt_Suc)

theorem getAttackTime_meets_spec_witness:
  "[0, 0.5, 1, 0.25] \<noteq> ([] :: real list) \<and>
   getAttackTime [0, 0.5, 1, 0.25] 0.3 = 2 \<and>
   attack_time_spec [0, 0.5, 1, 0.25] 0.3 = 2"
  using getAttackTime_meets_spec[of "[0, 0.5, 1, 0.25]" "0.3"]
  by (simp add: getAttackTime_def)

lemma sum_squares_le:
  assumes "\<forall>x\<in>set xs. \<bar>x\<bar> \<le> m"
  shows "sum_list (map (\<lambda>x. x * x) xs) \<le> real (length xs) * (m * m)"
  using assms
proof (induction xs)
  case Nil
  then show ?case by simp
next
  case (Cons x xs)
  then have xm: "\<bar>x\<bar> \<le> m" by simp
  then have "0 \<le> m" by linarith
  with xm have "\<bar>x\<bar> * \<bar>x\<bar> \<le> m * m" by (intro mult_mono) simp_all
  then have "x * x \<le> m * m" by simp
  then show ?case using Cons by (simp add: algebra_simps)
qed

text \<open>
  In exact arithmetic the root mean square of a non-empty frame is at most its largest
  absolute sample.
\<close>

lemma root_mean_square_le_peak:
  assumes "buffer \<noteq> []"
  shows "root_mean_square buffer \<le> Max (set (map abs buffer))"
proof -
  let ?m = "Max (set (map abs buffer))"
  let ?s = "sum_list (map (\<lambda>x. x * x) buffer)"
  have bound: "\<forall>x\<in>set buffer. \<bar>x\<bar> \<le> ?m" by simp
  have m0: "0 \<le> ?m"
  proof -
    obtain x where "x \<in> set buffer" using assms by (cases buffer) auto
    then have "\<bar>x\<bar> \<le> ?m" using bound by blast
    then show ?thesis by linarith
  qed
  have len: "0 < real (length buffer)" using assms by simp
  have "?s \<le> real (length buffer) * (?m * ?m)" using sum_squares_le[OF bound] .
  then have "?s / real (length buffer) \<le> ?m * ?m"
    using len by (simp add: pos_divide_le_eq mult.commute)
  then have "sqrt (?s / real (length buffer)) \<le> sqrt (?m * ?m)"
    by (rule real_sqrt_le_mono)
  then show ?thesis using m0 by (simp add: root_mean_square_def)
qed

text \<open>The sentinel is returned exactly when the largest absolute sample is below the threshold.\<close>

lemma getAttackTime_sentinel_iff:
  assumes "buffer \<noteq> []"
  shows "getAttackTime buffer thr = - 1 \<longleftrightarrow> Max (set (map abs buffer)) < thr"
proof -
  let ?p = "length (takeWhile (\<lambda>x. \<bar>x\<bar> \<noteq> Max (set (map abs buffer))) buffer)"
  have "int ?p - int (attackWalk buffer (thr * 0.1) ?p) \<noteq> - 1"
    using attackWalk_diff[of ?p buffer "thr * 0.1"] by linarith
  then show ?thesis
    by (simp add: getAttackTime_def peakLoop_from_start[OF assms] Let_def del: set_map)
qed


section \<open>Rounding to a double\<close>

lemma fl_zero [simp]: "fl 0 = 0"
  by (simp add: fl_def)

lemma roundEven_int [simp]: "roundEven (of_int n) = n"
  by (simp add: roundEven_def)

lemma two_powr_int: "0 \<le> n \<Longrightarrow> (2::real) powr of_int n = 2 ^ nat n"
  by (simp add: powr_real_of_int)

lemma floor_log2_scaled:
  assumes "0 < s"
  shows "\<lfloor>log 2 (of_int s / 2 ^ K)\<rfloor> = bitlen s - 1 - int K"
proof -
  let ?b = "bitlen s"
  have b: "2 ^ nat (?b - 1) \<le> s" "s < 2 ^ nat ?b" using bitlen_bounds[OF assms] by simp_all
  have bpos: "1 \<le> ?b" using assms bitlen_nonneg[of s] bitlen_eq_zero_iff[of s] by linarith
  have p1: "(2::real) powr of_int (?b - 1 - int K) = 2 ^ nat (?b - 1) / 2 ^ K"
  proof -
    have "(2::real) powr of_int (?b - 1 - int K) = 2 powr (of_int (?b - 1) - of_int (int K))" by simp
    also have "\<dots> = 2 powr of_int (?b - 1) / 2 powr of_int (int K)" by (simp add: powr_diff)
    also have "\<dots> = 2 ^ nat (?b - 1) / 2 ^ K"
      using bpos two_powr_int[of "?b - 1"] two_powr_int[of "int K"] by (simp only:) simp
    finally show ?thesis .
  qed
  have p2: "(2::real) powr of_int (?b - 1 - int K + 1) = 2 ^ nat ?b / 2 ^ K"
  proof -
    have "(2::real) powr of_int (?b - 1 - int K + 1) = 2 powr (of_int ?b - of_int (int K))" by simp
    also have "\<dots> = 2 powr of_int ?b / 2 powr of_int (int K)" by (simp add: powr_diff)
    also have "\<dots> = 2 ^ nat ?b / 2 ^ K"
      using bpos two_powr_int[of "?b"] two_powr_int[of "int K"] by (simp only:) simp
    finally show ?thesis .
  qed
  have "(of_int (2 ^ nat (?b - 1)) :: real) \<le> of_int s" using b(1) by (simp only: of_int_le_iff)
  then have lo: "(2::real) ^ nat (?b - 1) \<le> of_int s" by simp
  have "(of_int s :: real) < of_int (2 ^ nat ?b)" using b(2) by (simp only: of_int_less_iff)
  then have hi: "of_int s < (2::real) ^ nat ?b" by simp
  have "(2::real) powr of_int (?b - 1 - int K) \<le> of_int s / 2 ^ K"
    unfolding p1 using lo by (simp add: divide_right_mono)
  moreover have "of_int s / 2 ^ K < (2::real) powr (of_int (?b - 1 - int K) + 1)"
    using p2 hi by (simp add: divide_strict_right_mono)
  moreover have "0 < of_int s / (2::real) ^ K" using assms by simp
  ultimately show ?thesis
    using floor_log_eq_powr_iff[of "of_int s / 2 ^ K" 2 "?b - 1 - int K"] by simp
qed

lemma powr_split:
  "(2::real) powr of_int (a - b) = 2 powr of_int a / 2 powr of_int b"
  by (simp add: powr_diff)

lemma roundEven_div:
  assumes "1 \<le> k"
  shows "roundEven (of_int s / 2 ^ k) = roundEvenDiv s k"
proof -
  have fl: "\<lfloor>(of_int s :: real) / 2 ^ k\<rfloor> = s div 2 ^ k"
    using floor_divide_of_int_eq[of s "2 ^ k"] by simp
  have d: "(of_int s :: real) / 2 ^ k - of_int (s div 2 ^ k) = of_int (s mod 2 ^ k) / 2 ^ k"
  proof -
    have "(s div 2 ^ k) * 2 ^ k + s mod 2 ^ k = s" by (rule div_mult_mod_eq)
    then have "(of_int ((s div 2 ^ k) * 2 ^ k + s mod 2 ^ k) :: real) = of_int s" by (simp only:)
    then have "(of_int s :: real) = of_int (s div 2 ^ k) * 2 ^ k + of_int (s mod 2 ^ k)"
      by simp
    then show ?thesis by (simp add: field_simps)
  qed
  have half: "(2::int) ^ k = 2 * 2 ^ (k - 1)" using assms by (cases k) simp_all
  have halfr: "(2::real) ^ k = 2 * 2 ^ (k - 1)" using assms by (cases k) simp_all
  have lt: "(of_int (s mod 2 ^ k) :: real) / 2 ^ k < 1 / 2 \<longleftrightarrow> s mod 2 ^ k < 2 ^ (k - 1)"
  proof -
    have "(of_int (s mod 2 ^ k) :: real) / 2 ^ k < 1 / 2 \<longleftrightarrow>
          (of_int (s mod 2 ^ k) :: real) < 2 ^ (k - 1)"
      unfolding halfr by (simp add: field_simps)
    also have "\<dots> \<longleftrightarrow> (of_int (s mod 2 ^ k) :: real) < of_int (2 ^ (k - 1))" by simp
    also have "\<dots> \<longleftrightarrow> s mod 2 ^ k < 2 ^ (k - 1)" by (simp only: of_int_less_iff)
    finally show ?thesis .
  qed
  have gt: "(of_int (s mod 2 ^ k) :: real) / 2 ^ k > 1 / 2 \<longleftrightarrow> s mod 2 ^ k > 2 ^ (k - 1)"
  proof -
    have "(of_int (s mod 2 ^ k) :: real) / 2 ^ k > 1 / 2 \<longleftrightarrow>
          (of_int (s mod 2 ^ k) :: real) > 2 ^ (k - 1)"
      unfolding halfr by (simp add: field_simps)
    also have "\<dots> \<longleftrightarrow> (of_int (s mod 2 ^ k) :: real) > of_int (2 ^ (k - 1))" by simp
    also have "\<dots> \<longleftrightarrow> s mod 2 ^ k > 2 ^ (k - 1)" by (simp only: of_int_less_iff)
    finally show ?thesis .
  qed
  show ?thesis
    using assms unfolding roundEven_def roundEvenDiv_def Let_def fl d lt gt by simp
qed

text \<open>On a positive multiple of a power of two, \<open>fl\<close> rounds the integer factor.\<close>

lemma fl_scaled:
  assumes "0 < s"
  shows "fl (of_int s / 2 ^ K) = of_int (round53 s) / 2 ^ K"
proof -
  let ?b = "bitlen s"
  let ?r = "(of_int s :: real) / 2 ^ K"
  have rpos: "0 < ?r" using assms by simp
  have bb: "2 ^ nat (?b - 1) \<le> s" "s < 2 ^ nat ?b" using bitlen_bounds[OF assms] by simp_all
  have bpos: "1 \<le> ?b" using assms bitlen_nonneg[of s] bitlen_eq_zero_iff[of s] by linarith
  have "\<bar>?r\<bar> = ?r" using rpos by (rule abs_of_pos)
  then have e: "\<lfloor>log 2 \<bar>?r\<bar>\<rfloor> - 52 = ?b - 53 - int K"
    using floor_log2_scaled[OF assms, of K] by simp
  have flr: "fl ?r = of_int (roundEven (?r / 2 powr of_int (?b - 53 - int K))) * 2 powr of_int (?b - 53 - int K)"
  proof -
    have "?r \<noteq> 0" using assms by simp
    then show ?thesis unfolding fl_def Let_def e by (simp only: if_False)
  qed
  have uK: "(2::real) powr of_int (?b - 53 - int K) = 2 powr of_int (?b - 53) / 2 ^ K"
    using powr_split[of "?b - 53" "int K"] two_powr_int[of "int K"] by simp
  show ?thesis
  proof (cases "s < 2 ^ 53")
    case True
    have "?b \<le> 53"
    proof (rule ccontr)
      assume "\<not> ?b \<le> 53"
      then have "53 \<le> nat (?b - 1)" by simp
      then have "(2::int) ^ 53 \<le> 2 ^ nat (?b - 1)" by (intro power_increasing) simp_all
      then show False using bb(1) True by linarith
    qed
    then have u: "(2::real) powr of_int (?b - 53) = 1 / 2 ^ nat (53 - ?b)"
    proof -
      have "(2::real) powr of_int (?b - 53) = 2 powr (- of_int (53 - ?b))" by simp
      also have "\<dots> = inverse (2 powr of_int (53 - ?b))" by (rule powr_minus)
      also have "\<dots> = 1 / 2 ^ nat (53 - ?b)"
        using \<open>?b \<le> 53\<close> two_powr_int[of "53 - ?b"] by (simp add: inverse_eq_divide)
      finally show ?thesis .
    qed
    have q: "?r / 2 powr of_int (?b - 53 - int K) = of_int (s * 2 ^ nat (53 - ?b))"
      unfolding uK u by simp
    have "fl ?r = of_int (s * 2 ^ nat (53 - ?b)) * (1 / 2 ^ nat (53 - ?b) / 2 ^ K)"
      by (simp only: flr q roundEven_int) (simp only: uK u)
    also have "\<dots> = of_int s / 2 ^ K" by simp
    finally show ?thesis using True by (simp add: round53_def)
  next
    case False
    have gt: "53 < ?b"
    proof (rule ccontr)
      assume "\<not> 53 < ?b"
      then have "nat ?b \<le> 53" by simp
      then have "(2::int) ^ nat ?b \<le> 2 ^ 53" by (intro power_increasing) simp_all
      then show False using bb(2) False by linarith
    qed
    let ?k = "nat (?b - 53)"
    have k1: "1 \<le> ?k" using gt by simp
    have u: "(2::real) powr of_int (?b - 53) = 2 ^ ?k" using gt two_powr_int[of "?b - 53"] by simp
    have q: "?r / 2 powr of_int (?b - 53 - int K) = of_int s / 2 ^ ?k"
      unfolding uK u by simp
    have "fl ?r = of_int (roundEvenDiv s ?k) * (2 ^ ?k / 2 ^ K)"
      by (simp only: flr q roundEven_div[OF k1]) (simp only: uK u)
    also have "\<dots> = of_int (roundEvenDiv s ?k * 2 ^ ?k) / 2 ^ K" by simp
    finally show ?thesis using False by (simp add: round53_def Let_def)
  qed
qed

text \<open>
  Between 1/2 and 1 the doubles are the multiples of \<open>2 ^ -53\<close>, and rounding does not
  go below one of them that is at most the argument.
\<close>

lemma fl_lower_half_binade:
  assumes "1 / 2 \<le> r" and "r < 1" and "of_int L / 2 ^ 53 \<le> r"
  shows "of_int L / 2 ^ 53 \<le> fl r"
proof -
  have rpos: "0 < r" using assms(1) by simp
  have "\<lfloor>log 2 r\<rfloor> = - 1"
    using floor_log_eq_powr_iff[of r 2 "- 1"] rpos assms(1,2) by (simp add: powr_minus)
  then have e: "\<lfloor>log 2 \<bar>r\<bar>\<rfloor> - 52 = - 53" using rpos by simp
  have u: "(2::real) powr of_int (- 53) = 1 / 2 ^ 53"
    by (simp add: powr_minus inverse_eq_divide)
  have "r \<noteq> 0" using rpos by simp
  then have "fl r = of_int (roundEven (r / (1 / 2 ^ 53))) * (1 / 2 ^ 53)"
    unfolding fl_def Let_def e u by (simp only: if_False)
  then have flr: "fl r = of_int (roundEven (r * 2 ^ 53)) / 2 ^ 53" by simp
  have "of_int L \<le> r * 2 ^ 53" using assms(3) by (simp add: field_simps)
  then have "L \<le> \<lfloor>r * 2 ^ 53\<rfloor>" by (simp add: le_floor_iff)
  moreover have "\<lfloor>y\<rfloor> \<le> roundEven y" for y by (simp add: roundEven_def Let_def)
  ultimately have "L \<le> roundEven (r * 2 ^ 53)" by (rule order_trans)
  then have "(of_int L :: real) \<le> of_int (roundEven (r * 2 ^ 53))" by simp
  then show ?thesis unfolding flr by (simp add: divide_right_mono)
qed

lemma bitlen_binade:
  assumes "2 ^ n \<le> t" and "t < 2 ^ Suc n"
  shows "bitlen t = int n + 1"
proof -
  have "(0::int) < 2 ^ n" by simp
  then have tpos: "0 < t" using assms(1) by linarith
  have "(of_int (2 ^ n) :: real) \<le> of_int t" using assms(1) by (simp only: of_int_le_iff)
  then have lo: "(2::real) powr real n \<le> of_int t" by (simp add: powr_realpow)
  have "(of_int t :: real) < of_int (2 ^ Suc n)" using assms(2) by (simp only: of_int_less_iff)
  then have "(of_int t :: real) < 2 ^ Suc n" by simp
  moreover have "(2::real) powr real (Suc n) = 2 ^ Suc n" by (rule powr_realpow) simp
  ultimately have "of_int t < (2::real) powr real (Suc n)" by (simp only:)
  then have hi: "of_int t < (2::real) powr (real n + 1)" by (simp add: add.commute)
  have "\<lfloor>log 2 (of_int t)\<rfloor> = int n"
    using floor_log_eq_powr_iff[of "of_int t" 2 "int n"] tpos lo hi by simp
  then show ?thesis using tpos by (simp add: bitlen_alt_def)
qed

text \<open>An integer below \<open>2 ^ 53\<close> over a power of two is a double.\<close>

lemma fl_small:
  assumes "0 < t" and "t < 2 ^ 53"
  shows "fl (of_int t / 2 ^ K) = of_int t / 2 ^ K"
  using fl_scaled[OF assms(1), of K] assms(2) by (simp add: round53_def)

lemma fl_binade:
  assumes "2 ^ (52 + k) \<le> t" and "t < 2 ^ (53 + k)" and "1 \<le> k"
  shows "fl (of_int t / 2 ^ K) = of_int (roundEvenDiv t k * 2 ^ k) / 2 ^ K"
proof -
  have "(0::int) < 2 ^ (52 + k)" by simp
  then have tpos: "0 < t" using assms(1) by linarith
  have b: "bitlen t = int (52 + k) + 1" using bitlen_binade[of "52 + k" t] assms(1,2) by simp
  have "(2::int) ^ 53 \<le> 2 ^ (52 + k)" using assms(3) by (intro power_increasing) simp_all
  then have "\<not> t < 2 ^ 53" using assms(1) by linarith
  then show ?thesis using fl_scaled[OF tpos, of K] b by (simp add: round53_def Let_def)
qed

text \<open>The doubles met when the concrete frames below are evaluated.\<close>

lemma fl_values:
  "fl (1 / 4) = 1 / 4" "fl (1 / 2) = 1 / 2" "fl (3 / 4) = 3 / 4" "fl 1 = 1"
  "fl (5 / 4) = 5 / 4" "fl (9 / 4) = 9 / 4"
  "fl (1 / 64) = 1 / 64" "fl (1 / 32) = 1 / 32" "fl (3 / 64) = 3 / 64" "fl (1 / 16) = 1 / 16"
  "fl (1 / 8) = 1 / 8"
  using fl_small[of 1 2] fl_small[of 2 2] fl_small[of 3 2] fl_small[of 4 2]
    fl_small[of 5 2] fl_small[of 9 2]
    fl_small[of 1 6] fl_small[of 2 6] fl_small[of 3 6] fl_small[of 4 6] fl_small[of 8 6]
  by simp_all


subsection \<open>The rounded sum of squares of a constant frame\<close>

text \<open>
  The sample of \<open>roundingFrame\<close> is \<open>13630837 / 2 ^ 24\<close>; its square is
  \<open>185799717320569 / 2 ^ 48\<close>, a double. The accumulator stays a multiple of \<open>2 ^ -48\<close>:
  the lemmas follow its integer factor. As long as the sum is below \<open>2 ^ 53\<close> units the
  additions are exact; from there on the sum is rounded to a multiple of 2, then of 4, 8
  and 16 units, and as the square is \<open>1\<close> modulo 8 and \<open>9\<close> modulo 16, each addition loses
  one unit up to \<open>2 ^ 56\<close> and gains seven above.
\<close>

lemma sumSquares_append: "sumSquares (xs @ ys) a = sumSquares ys (sumSquares xs a)"
  by (induction xs arbitrary: a) simp_all

lemma square_roundingSample: "fl (roundingSample * roundingSample) = of_int 185799717320569 / 2 ^ 48"
proof -
  have e: "roundingSample * roundingSample = of_int 185799717320569 / 2 ^ 48"
    by (simp add: roundingSample_def)
  have "fl (of_int 185799717320569 / 2 ^ 48) = of_int 185799717320569 / 2 ^ 48"
    by (rule fl_small) simp_all
  then show ?thesis by (simp only: e)
qed

lemma add_square:
  "fl (of_int s / 2 ^ 48 + fl (roundingSample * roundingSample)) =
   fl (of_int (s + 185799717320569) / 2 ^ 48)"
proof -
  have "of_int s / 2 ^ 48 + fl (roundingSample * roundingSample) =
        of_int (s + 185799717320569) / 2 ^ 48"
    by (simp add: square_roundingSample add_divide_distrib)
  then show ?thesis by (simp only:)
qed

lemma sumSquares_one:
  "sumSquares [roundingSample] (of_int s / 2 ^ 48) = fl (of_int (s + 185799717320569) / 2 ^ 48)"
  by (simp only: sumSquares.simps add_square)

lemma sumSquares_more:
  "sumSquares (replicate (Suc (Suc n)) roundingSample) (of_int s / 2 ^ 48) =
   sumSquares (replicate (Suc n) roundingSample) (fl (of_int (s + 185799717320569) / 2 ^ 48))"
  by (simp only: replicate.simps sumSquares.simps add_square)

text \<open>
  A run of additions during which every rounded sum moves by the same amount \<open>d\<close>, the
  sums staying in the range from \<open>lo\<close> to \<open>hi\<close> and the accumulator keeping the property
  \<open>P\<close>.
\<close>

lemma run_steps:
  fixes P :: "int \<Rightarrow> bool" and d lo hi :: int
  assumes single: "\<And>s. P s \<Longrightarrow> lo \<le> s + 185799717320569 \<Longrightarrow> s + 185799717320569 < hi \<Longrightarrow>
             fl (of_int (s + 185799717320569) / 2 ^ 48) = of_int (s + d) / 2 ^ 48 \<and> P (s + d)"
    and d0: "0 \<le> d"
  shows "P s \<Longrightarrow> lo \<le> s + 185799717320569 \<Longrightarrow> s + int n * d + 185799717320569 < hi \<Longrightarrow>
         sumSquares (replicate (Suc n) roundingSample) (of_int s / 2 ^ 48) =
           of_int (s + int (Suc n) * d) / 2 ^ 48"
proof (induction n arbitrary: s)
  case 0
  have "fl (of_int (s + 185799717320569) / 2 ^ 48) = of_int (s + d) / 2 ^ 48"
    using single[of s] 0 by simp
  moreover have "replicate (Suc 0) roundingSample = [roundingSample]" by simp
  moreover have "s + int (Suc 0) * d = s + d" by simp
  ultimately show ?case by (simp only: sumSquares_one)
next
  case (Suc n)
  have nd: "0 \<le> int (Suc n) * d" using d0 by simp
  then have lt: "s + 185799717320569 < hi" using Suc.prems(3) by linarith
  have st: "fl (of_int (s + 185799717320569) / 2 ^ 48) = of_int (s + d) / 2 ^ 48" and p: "P (s + d)"
    using single[OF Suc.prems(1,2) lt] by simp_all
  have lo': "lo \<le> s + d + 185799717320569" using Suc.prems(2) d0 by linarith
  have hi': "s + d + int n * d + 185799717320569 < hi"
    using Suc.prems(3) by (simp add: algebra_simps)
  have "sumSquares (replicate (Suc (Suc n)) roundingSample) (of_int s / 2 ^ 48) =
        sumSquares (replicate (Suc n) roundingSample) (of_int (s + d) / 2 ^ 48)"
    by (simp only: sumSquares_more st)
  also have "\<dots> = of_int (s + d + int (Suc n) * d) / 2 ^ 48"
    using Suc.IH[OF p lo' hi'] .
  also have "s + d + int (Suc n) * d = s + int (Suc (Suc n)) * d" by (simp add: algebra_simps)
  finally show ?case .
qed

lemma exact_step:
  "0 \<le> s \<Longrightarrow> 0 \<le> s + 185799717320569 \<Longrightarrow> s + 185799717320569 < 2 ^ 53 \<Longrightarrow>
   fl (of_int (s + 185799717320569) / 2 ^ 48) = of_int (s + 185799717320569) / 2 ^ 48 \<and>
   0 \<le> s + 185799717320569"
  using fl_small[of "s + 185799717320569" 48] by simp

lemma binade1_step:
  assumes "s mod 4 = 0" and "2 ^ 53 \<le> s + 185799717320569" and "s + 185799717320569 < 2 ^ 54"
  shows "fl (of_int (s + 185799717320569) / 2 ^ 48) = of_int (s + 185799717320568) / 2 ^ 48 \<and>
         (s + 185799717320568) mod 4 = 0"
proof -
  have r: "(s + 185799717320569) mod 2 = 1" using assms(1) by presburger
  have q: "(s + 185799717320569) div 2 * 2 = s + 185799717320568" using assms(1) by presburger
  have ev: "even ((s + 185799717320569) div 2)" using assms(1) by presburger
  have "roundEvenDiv (s + 185799717320569) 1 * 2 ^ 1 = s + 185799717320568"
    using r q ev by (simp add: roundEvenDiv_def Let_def)
  moreover have "(s + 185799717320568) mod 4 = 0" using assms(1) by presburger
  ultimately show ?thesis
    using fl_binade[of 1 "s + 185799717320569" 48] assms(2,3) by simp
qed

lemma binade2_step:
  assumes "s mod 4 = 0" and "2 ^ 54 \<le> s + 185799717320569" and "s + 185799717320569 < 2 ^ 55"
  shows "fl (of_int (s + 185799717320569) / 2 ^ 48) = of_int (s + 185799717320568) / 2 ^ 48 \<and>
         (s + 185799717320568) mod 4 = 0"
proof -
  have r: "(s + 185799717320569) mod 4 = 1" using assms(1) by presburger
  have q: "(s + 185799717320569) div 4 * 4 = s + 185799717320568" using assms(1) by presburger
  have "roundEvenDiv (s + 185799717320569) 2 * 2 ^ 2 = s + 185799717320568"
    using r q by (simp add: roundEvenDiv_def Let_def)
  moreover have "(s + 185799717320568) mod 4 = 0" using assms(1) by presburger
  ultimately show ?thesis
    using fl_binade[of 2 "s + 185799717320569" 48] assms(2,3) by simp
qed

lemma binade3_step:
  assumes "s mod 8 = 0" and "2 ^ 55 \<le> s + 185799717320569" and "s + 185799717320569 < 2 ^ 56"
  shows "fl (of_int (s + 185799717320569) / 2 ^ 48) = of_int (s + 185799717320568) / 2 ^ 48 \<and>
         (s + 185799717320568) mod 8 = 0"
proof -
  have r: "(s + 185799717320569) mod 8 = 1" using assms(1) by presburger
  have q: "(s + 185799717320569) div 8 * 8 = s + 185799717320568" using assms(1) by presburger
  have "roundEvenDiv (s + 185799717320569) 3 * 2 ^ 3 = s + 185799717320568"
    using r q by (simp add: roundEvenDiv_def Let_def)
  moreover have "(s + 185799717320568) mod 8 = 0" using assms(1) by presburger
  ultimately show ?thesis
    using fl_binade[of 3 "s + 185799717320569" 48] assms(2,3) by simp
qed

lemma binade4_step:
  assumes "s mod 16 = 0" and "2 ^ 56 \<le> s + 185799717320569" and "s + 185799717320569 < 2 ^ 57"
  shows "fl (of_int (s + 185799717320569) / 2 ^ 48) = of_int (s + 185799717320576) / 2 ^ 48 \<and>
         (s + 185799717320576) mod 16 = 0"
proof -
  have r: "(s + 185799717320569) mod 16 = 9" using assms(1) by presburger
  have q: "(s + 185799717320569) div 16 * 16 + 16 = s + 185799717320576" using assms(1) by presburger
  have "roundEvenDiv (s + 185799717320569) 4 * 2 ^ 4 = s + 185799717320576"
    using r q by (simp add: roundEvenDiv_def Let_def algebra_simps)
  moreover have "(s + 185799717320576) mod 16 = 0" using assms(1) by presburger
  ultimately show ?thesis
    using fl_binade[of 4 "s + 185799717320569" 48] assms(2,3) by simp
qed

text \<open>
  The 512 additions: 48 exact ones, then 48, 97 and 194 that lose a unit each, one that
  crosses \<open>2 ^ 56\<close>, and 124 that gain seven units each.
\<close>

lemma frame_split:
  "replicate 512 roundingSample =
     replicate (Suc 47) roundingSample @ replicate (Suc 47) roundingSample @
     replicate (Suc 96) roundingSample @ replicate (Suc 193) roundingSample @
     replicate (Suc 0) roundingSample @ replicate (Suc 123) roundingSample"
proof -
  have "replicate (Suc 47) roundingSample @ replicate (Suc 47) roundingSample @
     replicate (Suc 96) roundingSample @ replicate (Suc 193) roundingSample @
     replicate (Suc 0) roundingSample @ replicate (Suc 123) roundingSample =
     replicate (Suc 47 + (Suc 47 + (Suc 96 + (Suc 193 + (Suc 0 + Suc 123))))) roundingSample"
    by (simp only: replicate_add)
  also have "Suc 47 + (Suc 47 + (Suc 96 + (Suc 193 + (Suc 0 + Suc 123)))) = (512::nat)" by simp
  finally show ?thesis by simp
qed

lemma run_exact:
  "sumSquares (replicate (Suc 47) roundingSample) 0 = of_int 8918386431387312 / 2 ^ 48"
proof -
  have "sumSquares (replicate (Suc 47) roundingSample) (of_int 0 / 2 ^ 48) =
        of_int (0 + int (Suc 47) * 185799717320569) / 2 ^ 48"
    by (rule run_steps[where P = "\<lambda>s. 0 \<le> s" and lo = 0 and hi = "2 ^ 53"])
       (use exact_step in simp_all)
  then show ?thesis by simp
qed

lemma run_binade1:
  "sumSquares (replicate (Suc 47) roundingSample) (of_int 8918386431387312 / 2 ^ 48) =
     of_int 17836772862774576 / 2 ^ 48"
proof -
  have "sumSquares (replicate (Suc 47) roundingSample) (of_int 8918386431387312 / 2 ^ 48) =
        of_int (8918386431387312 + int (Suc 47) * 185799717320568) / 2 ^ 48"
    by (rule run_steps[where P = "\<lambda>s. s mod 4 = 0" and lo = "2 ^ 53" and hi = "2 ^ 54"])
       (use binade1_step in simp_all)
  then show ?thesis by simp
qed

lemma run_binade2:
  "sumSquares (replicate (Suc 96) roundingSample) (of_int 17836772862774576 / 2 ^ 48) =
     of_int 35859345442869672 / 2 ^ 48"
proof -
  have "sumSquares (replicate (Suc 96) roundingSample) (of_int 17836772862774576 / 2 ^ 48) =
        of_int (17836772862774576 + int (Suc 96) * 185799717320568) / 2 ^ 48"
    by (rule run_steps[where P = "\<lambda>s. s mod 4 = 0" and lo = "2 ^ 54" and hi = "2 ^ 55"])
       (use binade2_step in simp_all)
  then show ?thesis by simp
qed

lemma run_binade3:
  "sumSquares (replicate (Suc 193) roundingSample) (of_int 35859345442869672 / 2 ^ 48) =
     of_int 71904490603059864 / 2 ^ 48"
proof -
  have "sumSquares (replicate (Suc 193) roundingSample) (of_int 35859345442869672 / 2 ^ 48) =
        of_int (35859345442869672 + int (Suc 193) * 185799717320568) / 2 ^ 48"
    by (rule run_steps[where P = "\<lambda>s. s mod 8 = 0" and lo = "2 ^ 55" and hi = "2 ^ 56"])
       (use binade3_step in simp_all)
  then show ?thesis by simp
qed

lemma run_crossing:
  "sumSquares (replicate (Suc 0) roundingSample) (of_int 71904490603059864 / 2 ^ 48) =
     of_int 72090290320380432 / 2 ^ 48"
proof -
  have "roundEvenDiv (71904490603059864 + 185799717320569) 4 * 2 ^ 4 = 72090290320380432"
    by (simp add: roundEvenDiv_def Let_def)
  then have "fl (of_int (71904490603059864 + 185799717320569) / 2 ^ 48) =
        of_int 72090290320380432 / 2 ^ 48"
    using fl_binade[of 4 "71904490603059864 + 185799717320569" 48] by simp
  moreover have "replicate (Suc 0) roundingSample = [roundingSample]" by simp
  ultimately show ?thesis by (simp only: sumSquares_one)
qed

lemma run_binade4:
  "sumSquares (replicate (Suc 123) roundingSample) (of_int 72090290320380432 / 2 ^ 48) =
     of_int 95129455268131856 / 2 ^ 48"
proof -
  have "sumSquares (replicate (Suc 123) roundingSample) (of_int 72090290320380432 / 2 ^ 48) =
        of_int (72090290320380432 + int (Suc 123) * 185799717320576) / 2 ^ 48"
    by (rule run_steps[where P = "\<lambda>s. s mod 16 = 0" and lo = "2 ^ 56" and hi = "2 ^ 57"])
       (use binade4_step in simp_all)
  then show ?thesis by simp
qed

lemma sum_roundingFrame: "sumSquares roundingFrame 0 = of_int 95129455268131856 / 2 ^ 48"
  unfolding roundingFrame_def
  by (simp only: frame_split sumSquares_append run_exact run_binade1 run_binade2 run_binade3
      run_crossing run_binade4)

lemma mean_roundingFrame:
  "fl (sumSquares roundingFrame 0 / real (length roundingFrame)) = of_int 95129455268131856 / 2 ^ 57"
proof -
  have "roundEvenDiv 95129455268131856 4 * 2 ^ 4 = 95129455268131856"
    by (simp add: roundEvenDiv_def Let_def)
  then have "fl (of_int 95129455268131856 / 2 ^ 57) = of_int 95129455268131856 / 2 ^ 57"
    using fl_binade[of 4 95129455268131856 57] by simp
  moreover have "sumSquares roundingFrame 0 / real (length roundingFrame) =
      of_int 95129455268131856 / 2 ^ 57"
    by (simp add: sum_roundingFrame) (simp add: roundingFrame_def)
  ultimately show ?thesis by (simp only:)
qed

text \<open>
  The computed RMS of \<open>roundingFrame\<close> is at least \<open>7317999891513346 / 2 ^ 53\<close>, two
  doubles above the sample, whose value is \<open>7317999891513344 / 2 ^ 53\<close>.
\<close>

lemma rms_roundingFrame:
  "\<exists>r. calculateRMS roundingFrame = Some r \<and> of_int 7317999891513346 / 2 ^ 53 \<le> r"
proof -
  let ?q = "of_int 95129455268131856 / 2 ^ 57 :: real"
  have lo: "of_int 7317999891513346 / 2 ^ 53 \<le> sqrt ?q"
    by (rule real_le_rsqrt) (simp add: power2_eq_square)
  have half: "1 / 2 \<le> sqrt ?q"
    by (rule real_le_rsqrt) (simp add: power2_eq_square)
  have one: "sqrt ?q < 1" by (simp add: real_sqrt_lt_1_iff)
  have "of_int 7317999891513346 / 2 ^ 53 \<le> fl (sqrt ?q)"
    using fl_lower_half_binade[OF half one lo] .
  moreover have "calculateRMS roundingFrame = Some (fl (sqrt ?q))"
    unfolding calculateRMS_def by (simp only: mean_roundingFrame) (simp add: roundingFrame_def)
  ultimately show ?thesis by simp
qed

lemma peak_roundingFrame: "Max (set (map abs roundingFrame)) = roundingSample"
  by (simp add: roundingFrame_def roundingSample_def)

lemma attack_roundingFrame: "getAttackTime roundingFrame roundingThreshold = - 1"
proof -
  have ne: "roundingFrame \<noteq> []" by (simp add: roundingFrame_def)
  have "roundingSample < roundingThreshold" by (simp add: roundingSample_def roundingThreshold_def)
  then show ?thesis using getAttackTime_sentinel_iff[OF ne] peak_roundingFrame by simp
qed


section \<open>The concrete inputs evaluated\<close>

lemma sqrt_quarter: "sqrt (1 / 4) = 1 / 2"
  by (rule real_sqrt_unique) (simp_all add: power2_eq_square)

lemma sqrt_sixty_fourth: "sqrt (1 / 64) = 1 / 8"
  by (rule real_sqrt_unique) (simp_all add: power2_eq_square)

lemma rms_clapFrame: "calculateRMS clapFrame = Some (1/2)"
  by (simp add: calculateRMS_def clapFrame_def fl_values sqrt_quarter)

lemma rms_quietFrame: "calculateRMS quietFrame = Some (1/8)"
  by (simp add: calculateRMS_def quietFrame_def fl_values sqrt_sixty_fourth)

lemma db_half: "amplitudeToDecibels (1/2) > - 45"
proof -
  have "log 10 (1/2) > log 10 (1/10)" by (subst log_less_cancel_iff) simp_all
  moreover have "log 10 (1/10) = - 1" by (simp add: log_divide)
  ultimately show ?thesis by (simp add: amplitudeToDecibels_def)
qed

lemma attack_clapFrame: "getAttackTime clapFrame 0.3 = 6"
  by (simp add: getAttackTime_def clapFrame_def)

lemma dominantLoop_replicate:
  "v \<le> mv \<Longrightarrow> dominantLoop (replicate n v @ xs) i (mi, mv) = dominantLoop xs (i + n) (mi, mv)"
  by (induction n arbitrary: i) simp_all

lemma freq_clapSpectrum: "calculateDominantFrequency clapSpectrum 44100 1024 = 70 * 44100 / 1024"
  by (simp add: calculateDominantFrequency_def clapSpectrum_def dominantLoop_replicate)

lemma listeningProcessor_eq:
  "listeningProcessor =
     \<lparr> options = mergeOptions noOptions,
       isListening = True,
       audioContext = Some \<lparr> ctxState = Running, sampleRate = 44100 \<rparr>,
       analyser = Some \<lparr> fftSize = 1024, smoothingTimeConstant = 0.2 \<rparr>,
       microphone = Some (MediaStreamSource (MediaStream 1)),
       mediaStream = Some (MediaStream 1),
       lastClapTime = 0,
       cooldownPeriod = 300,
       analyserBufferLength = 512,
       timeData = Some (replicate 512 0),
       frequencyData = Some (replicate 512 0),
       animationFrame = Some 1 \<rparr>"
  by (simp add: listeningProcessor_def start_def AudioProcessor_new_def grantingHost_def
      createAudioContext_def requestMicrophoneAccess_def setupAudioProcessing_def startAnalysis_def Let_def)

lemma thresholdProcessor_eq:
  "thresholdProcessor =
     \<lparr> options = (mergeOptions noOptions)\<lparr> threshold := roundingThreshold \<rparr>,
       isListening = True,
       audioContext = Some \<lparr> ctxState = Running, sampleRate = 44100 \<rparr>,
       analyser = Some \<lparr> fftSize = 1024, smoothingTimeConstant = 0.2 \<rparr>,
       microphone = Some (MediaStreamSource (MediaStream 1)),
       mediaStream = Some (MediaStream 1),
       lastClapTime = 0,
       cooldownPeriod = 300,
       analyserBufferLength = 512,
       timeData = Some (replicate 512 0),
       frequencyData = Some (replicate 512 0),
       animationFrame = Some 1 \<rparr>"
  by (simp add: thresholdProcessor_def start_def AudioProcessor_new_def grantingHost_def
      createAudioContext_def requestMicrophoneAccess_def setupAudioProcessing_def startAnalysis_def
      mergeOptions_def noOptions_def orDefault_def Let_def)

lemma qualifies_clapTick: "qualifies listeningProcessor (clapTick t)"
  using db_half
  by (simp add: qualifies_def listeningProcessor_eq clapTick_def rms_clapFrame attack_clapFrame
      freq_clapSpectrum mergeOptions_def noOptions_def orDefault_def)

section \<open>Properties of the audio processor\<close>

lemma analyze_fields:
  "options (snd (analyze tk p)) = options p"
  "analyser (snd (analyze tk p)) = analyser p"
  "audioContext (snd (analyze tk p)) = audioContext p"
  "cooldownPeriod (snd (analyze tk p)) = cooldownPeriod p"
  "isListening (snd (analyze tk p)) = isListening p"
  by (simp_all add: analyze_def Let_def split: option.splits)

lemma analyze_clap_iff:
  "isClap (fst (analyze tk p)) \<longleftrightarrow>
     isListening p \<and> qualifies p tk \<and> tickNow tk - lastClapTime p > cooldownPeriod p"
  by (auto simp add: analyze_def qualifies_def Let_def split: option.splits)

lemma analyze_lastClapTime:
  "lastClapTime (snd (analyze tk p)) =
     (if isClap (fst (analyze tk p)) then tickNow tk else lastClapTime p)"
  by (simp add: analyze_def Let_def split: option.splits)

text \<open>
  C5 (amplitude gate). While the processor listens, a frame whose RMS is at most the
  threshold, or whose decibel value is at most \<open>minDecibels\<close>, ends the pass at the
  loudness test: no \<open>clap\<close> is emitted, neither the attack time nor the spectrum is
  computed (the spectrum buffer and the time of the last clap keep their values), and
  the next pass is scheduled as usual. The spectrum the host would have supplied plays
  no part.
\<close>

theorem amplitude_gate_skips_frame:
  assumes "isListening p" and "analyser p = Some node"
    and "calculateRMS (tickTimeData tk) = Some rms"
    and "rms \<le> threshold (options p) \<or> amplitudeToDecibels rms \<le> minDecibels (options p)"
  shows "analyze tk p =
           (GateClosed, p\<lparr> timeData := Some (tickTimeData tk), animationFrame := Some (tickRaf tk) \<rparr>)"
  using assms by (auto simp add: analyze_def Let_def)

theorem amplitude_gate_skips_frame_witness:
  "isListening listeningProcessor \<and>
   calculateRMS quietFrame = Some (1/8) \<and>
   (1/8 :: real) \<le> threshold (options listeningProcessor) \<and>
   analyze \<lparr> tickTimeData = quietFrame, tickFrequencyData = clapSpectrum, tickNow = 1000, tickRaf = 2 \<rparr>
       listeningProcessor =
     (GateClosed, listeningProcessor\<lparr> timeData := Some quietFrame, animationFrame := Some 2 \<rparr>)"
proof -
  have l: "isListening listeningProcessor"
    and a: "analyser listeningProcessor = Some \<lparr> fftSize = 1024, smoothingTimeConstant = 0.2 \<rparr>"
    and t: "(1/8 :: real) \<le> threshold (options listeningProcessor)"
    by (simp_all add: listeningProcessor_eq mergeOptions_def noOptions_def orDefault_def)
  show ?thesis
    using amplitude_gate_skips_frame[of listeningProcessor _
        "\<lparr> tickTimeData = quietFrame, tickFrequencyData = clapSpectrum, tickNow = 1000, tickRaf = 2 \<rparr>"
        "1/8", OF l a] rms_quietFrame l t
    by simp
qed


text \<open>
  A pass that goes beyond the gate holds the result of \<open>getAttackTime\<close> on its frame, and
  emits \<open>clap\<close> only if that is at least \<open>minAttackTime\<close>.
\<close>

lemma analyze_examined:
  assumes "fst (analyze tk p) = Examined a f c"
  shows "a = getAttackTime (tickTimeData tk) (threshold (options p))"
    and "c \<Longrightarrow> minAttackTime (options p) \<le> a"
  using assms
  by (auto simp add: analyze_def Let_def split: option.splits if_splits)

lemma runTicks_snoc: "runTicks (tks @ [tk]) p = snd (analyze tk (runTicks tks p))"
  by (simp add: runTicks_def)

lemma runTicks_fields:
  "options (runTicks tks p) = options p"
  "analyser (runTicks tks p) = analyser p"
  "audioContext (runTicks tks p) = audioContext p"
  "cooldownPeriod (runTicks tks p) = cooldownPeriod p"
  "isListening (runTicks tks p) = isListening p"
  by (induction tks rule: rev_induct) (simp_all add: runTicks_snoc analyze_fields, simp_all add: runTicks_def)

lemma qualifies_cong:
  "options q = options p \<Longrightarrow> analyser q = analyser p \<Longrightarrow> audioContext q = audioContext p \<Longrightarrow>
   qualifies q tk = qualifies p tk"
  unfolding qualifies_def by (simp only:)

lemma runTicks_take_Suc:
  "i < length tks \<Longrightarrow> runTicks (take (Suc i) tks) p = snd (analyze (tks ! i) (runTicks (take i tks) p))"
  by (simp add: take_Suc_conv_app_nth runTicks_snoc)

lemma lastClapTime_step:
  assumes "i < length tks"
  shows "lastClapTime (runTicks (take (Suc i) tks) p) =
           (if isClap (resultAt tks p i) then tickNow (tks ! i)
            else lastClapTime (runTicks (take i tks) p))"
  using assms by (simp add: runTicks_take_Suc analyze_lastClapTime resultAt_def)

lemma resultAt_clap_iff:
  "isClap (resultAt tks p i) \<longleftrightarrow>
     isListening p \<and> qualifies p (tks ! i) \<and>
     tickNow (tks ! i) - lastClapTime (runTicks (take i tks) p) > cooldownPeriod p"
  by (simp add: resultAt_def analyze_clap_iff runTicks_fields qualifies_cong[of "runTicks (take i tks) p" p])

text \<open>
  After a clap at position \<open>i\<close> the stored time never falls below that clap's time, and
  it stays at it for as long as no further clap is emitted.
\<close>

lemma lastClapTime_after:
  assumes "0 \<le> cooldownPeriod p" and "isClap (resultAt tks p i)" and "i < j" and "j \<le> length tks"
  shows "tickNow (tks ! i) \<le> lastClapTime (runTicks (take j tks) p)"
  using assms(3,4)
proof (induction j)
  case 0
  then show ?case by simp
next
  case (Suc j)
  then have jl: "j < length tks" by simp
  show ?case
  proof (cases "i = j")
    case True
    then show ?thesis using assms(2) jl by (simp add: lastClapTime_step)
  next
    case False
    then have ih: "tickNow (tks ! i) \<le> lastClapTime (runTicks (take j tks) p)"
      using Suc by simp
    show ?thesis
    proof (cases "isClap (resultAt tks p j)")
      case True
      then have "tickNow (tks ! j) - lastClapTime (runTicks (take j tks) p) > cooldownPeriod p"
        by (simp add: resultAt_clap_iff)
      then show ?thesis using True ih assms(1) jl by (simp add: lastClapTime_step)
    next
      case False
      then show ?thesis using ih jl by (simp add: lastClapTime_step)
    qed
  qed
qed

lemma lastClapTime_quiet:
  assumes "isClap (resultAt tks p i)" and "i < j" and "j \<le> length tks"
    and "\<forall>k. i < k \<and> k < j \<longrightarrow> \<not> isClap (resultAt tks p k)"
  shows "lastClapTime (runTicks (take j tks) p) = tickNow (tks ! i)"
  using assms(2,3,4)
proof (induction j)
  case 0
  then show ?case by simp
next
  case (Suc j)
  then have jl: "j < length tks" by simp
  show ?case
  proof (cases "i = j")
    case True
    then show ?thesis using assms(1) jl by (simp add: lastClapTime_step)
  next
    case False
    then have "i < j" using Suc.prems by simp
    then have "lastClapTime (runTicks (take j tks) p) = tickNow (tks ! i)"
      and "\<not> isClap (resultAt tks p j)"
      using Suc by simp_all
    then show ?thesis using jl by (simp add: lastClapTime_step)
  qed
qed

text \<open>
  C4 (cooldown). Along any sequence of passes, once the pass at position \<open>i\<close> has
  emitted a clap at time \<open>t\<close>, a later pass at time \<open>t'\<close> with
  \<open>t' - t \<le> cooldownPeriod\<close> emits none, whatever its frame; and a later pass
  with \<open>t' - t > cooldownPeriod\<close> whose frame meets the amplitude, attack-time and
  frequency conditions does emit one, when no pass in between did.
\<close>

theorem cooldown_between_claps:
  assumes "0 \<le> cooldownPeriod p" and "i < j" and "j < length tks"
    and "isClap (resultAt tks p i)"
  shows "(tickNow (tks ! j) - tickNow (tks ! i) \<le> cooldownPeriod p \<longrightarrow> \<not> isClap (resultAt tks p j)) \<and>
         (tickNow (tks ! j) - tickNow (tks ! i) > cooldownPeriod p \<and> qualifies p (tks ! j) \<and>
          (\<forall>k. i < k \<and> k < j \<longrightarrow> \<not> isClap (resultAt tks p k)) \<longrightarrow> isClap (resultAt tks p j))"
proof (intro conjI impI)
  assume near: "tickNow (tks ! j) - tickNow (tks ! i) \<le> cooldownPeriod p"
  have "tickNow (tks ! i) \<le> lastClapTime (runTicks (take j tks) p)"
    using lastClapTime_after[OF assms(1) assms(4) assms(2)] assms(3) by simp
  then have "\<not> tickNow (tks ! j) - lastClapTime (runTicks (take j tks) p) > cooldownPeriod p"
    using near by linarith
  then show "\<not> isClap (resultAt tks p j)" by (simp add: resultAt_clap_iff)
next
  assume far: "tickNow (tks ! j) - tickNow (tks ! i) > cooldownPeriod p \<and> qualifies p (tks ! j) \<and>
          (\<forall>k. i < k \<and> k < j \<longrightarrow> \<not> isClap (resultAt tks p k))"
  then have "lastClapTime (runTicks (take j tks) p) = tickNow (tks ! i)"
    using lastClapTime_quiet[OF assms(4) assms(2)] assms(3) by simp
  moreover have "isListening p" using assms(4) by (simp add: resultAt_clap_iff)
  ultimately show "isClap (resultAt tks p j)" using far by (simp add: resultAt_clap_iff)
qed

theorem cooldown_between_claps_witness:
  "isClap (resultAt [clapTick 1000, clapTick 1200, clapTick 1400] listeningProcessor 0) \<and>
   \<not> isClap (resultAt [clapTick 1000, clapTick 1200, clapTick 1400] listeningProcessor 1) \<and>
   isClap (resultAt [clapTick 1000, clapTick 1200, clapTick 1400] listeningProcessor 2)"
proof -
  let ?tks = "[clapTick 1000, clapTick 1200, clapTick 1400]"
  have cd: "0 \<le> cooldownPeriod listeningProcessor" "cooldownPeriod listeningProcessor = 300"
    by (simp_all add: listeningProcessor_eq)
  have first: "isClap (resultAt ?tks listeningProcessor 0)"
    using qualifies_clapTick[of 1000]
    by (simp add: resultAt_clap_iff runTicks_def) (simp add: listeningProcessor_eq clapTick_def)
  have times: "tickNow (?tks ! 0) = 1000" "tickNow (?tks ! 1) = 1200" "tickNow (?tks ! 2) = 1400"
    by (simp_all add: clapTick_def)
  have "tickNow (?tks ! 1) - tickNow (?tks ! 0) \<le> cooldownPeriod listeningProcessor
          \<longrightarrow> \<not> isClap (resultAt ?tks listeningProcessor 1)"
    using cooldown_between_claps[OF cd(1) _ _ first, of 1] by simp
  then have second: "\<not> isClap (resultAt ?tks listeningProcessor 1)"
    unfolding times cd(2) by simp
  have between: "\<forall>k. 0 < k \<and> k < 2 \<longrightarrow> \<not> isClap (resultAt ?tks listeningProcessor k)"
  proof (intro allI impI)
    fix k :: nat
    assume "0 < k \<and> k < 2"
    then have "k = 1" by simp
    then show "\<not> isClap (resultAt ?tks listeningProcessor k)" using second by simp
  qed
  have q: "qualifies listeningProcessor (?tks ! 2)" using qualifies_clapTick[of 1400] by simp
  have "tickNow (?tks ! 2) - tickNow (?tks ! 0) > cooldownPeriod listeningProcessor \<and>
        qualifies listeningProcessor (?tks ! 2) \<and>
        (\<forall>k. 0 < k \<and> k < 2 \<longrightarrow> \<not> isClap (resultAt ?tks listeningProcessor k))
          \<longrightarrow> isClap (resultAt ?tks listeningProcessor 2)"
    using cooldown_between_claps[OF cd(1) _ _ first, of 2] by simp
  then have third: "isClap (resultAt ?tks listeningProcessor 2)"
    using between q unfolding times cd(2) by simp
  show ?thesis using first second third by simp
qed

text \<open>
  The pass on \<open>roundingFrame\<close>: the computed RMS is above the threshold, the frame goes
  beyond the gate, and the attack time of the pass is \<open>-1\<close>.
\<close>

lemma rms_exceeds_roundingThreshold:
  "\<exists>r. calculateRMS roundingFrame = Some r \<and> roundingThreshold < r \<and> 1 / 10 < r"
proof -
  obtain r where r: "calculateRMS roundingFrame = Some r"
    and lo: "of_int 7317999891513346 / 2 ^ 53 \<le> r"
    using rms_roundingFrame by blast
  have "roundingThreshold < r" using lo by (simp add: roundingThreshold_def)
  moreover have "1 / 10 < r" using lo by simp
  ultimately show ?thesis using r by simp
qed

lemma analyze_roundingTick:
  "fst (analyze roundingTick thresholdProcessor) = Examined (- 1) (70 * 44100 / 1024) False"
proof -
  obtain r where r: "calculateRMS roundingFrame = Some r"
    and gt: "roundingThreshold < r" and big: "1 / 10 < r"
    using rms_exceeds_roundingThreshold by blast
  have "log 10 (1 / 10) < log 10 r" using big by (subst log_less_cancel_iff) simp_all
  moreover have "log 10 (1 / 10) = - 1" by (simp add: log_divide)
  ultimately have db: "- 45 < amplitudeToDecibels r"
    using big by (simp add: amplitudeToDecibels_def)
  show ?thesis
    using gt db
    by (simp add: analyze_def roundingTick_def thresholdProcessor_eq r attack_roundingFrame
        freq_clapSpectrum mergeOptions_def noOptions_def orDefault_def Let_def)
qed

text \<open>
  C10 (the sentinel behind the gate), as amended. On every non-empty frame the exact
  root mean square is at most the largest absolute sample, and \<open>getAttackTime\<close> returns
  \<open>-1\<close> exactly when that largest sample is below the threshold. So a frame whose exact
  root mean square exceeds the threshold never yields \<open>-1\<close>; and a pass of the analysis
  that does hold \<open>-1\<close> as its attack time has a frame whose peak is below the threshold,
  and emits no \<open>clap\<close> when \<open>minAttackTime\<close> is not negative.
\<close>

theorem sentinel_needs_peak_below_threshold:
  assumes "buffer \<noteq> []"
  shows "root_mean_square buffer \<le> Max (set (map abs buffer)) \<and>
         (getAttackTime buffer thr = - 1 \<longleftrightarrow> Max (set (map abs buffer)) < thr) \<and>
         (thr < root_mean_square buffer \<longrightarrow> getAttackTime buffer thr \<noteq> - 1) \<and>
         (\<forall>tk p f c. tickTimeData tk = buffer \<and> fst (analyze tk p) = Examined (- 1) f c \<longrightarrow>
            Max (set (map abs buffer)) < threshold (options p) \<and>
            (0 \<le> minAttackTime (options p) \<longrightarrow> \<not> c))"
proof -
  have le: "root_mean_square buffer \<le> Max (set (map abs buffer))"
    by (rule root_mean_square_le_peak[OF assms])
  have iff: "getAttackTime buffer t = - 1 \<longleftrightarrow> Max (set (map abs buffer)) < t" for t
    by (rule getAttackTime_sentinel_iff[OF assms])
  have gate: "getAttackTime buffer thr \<noteq> - 1" if "thr < root_mean_square buffer"
    using that le iff[of thr] by linarith
  have run: "Max (set (map abs buffer)) < threshold (options p) \<and>
             (0 \<le> minAttackTime (options p) \<longrightarrow> \<not> c)"
    if "tickTimeData tk = buffer \<and> fst (analyze tk p) = Examined (- 1) f c" for tk p f c
  proof -
    have ex: "fst (analyze tk p) = Examined (- 1) f c" and b: "tickTimeData tk = buffer"
      using that by simp_all
    have "getAttackTime buffer (threshold (options p)) = - 1"
      using analyze_examined(1)[OF ex] b by simp
    then have "Max (set (map abs buffer)) < threshold (options p)"
      using iff[of "threshold (options p)"] by simp
    moreover have "\<not> c" if "0 \<le> minAttackTime (options p)"
      using analyze_examined(2)[OF ex] that by auto
    ultimately show ?thesis by simp
  qed
  show ?thesis using le iff[of thr] gate run by blast
qed

theorem sentinel_needs_peak_below_threshold_witness:
  "clapFrame \<noteq> [] \<and> root_mean_square clapFrame = 1 / 2 \<and>
   Max (set (map abs clapFrame)) = 1 \<and> (0.3 :: real) < 1 / 2 \<and>
   getAttackTime clapFrame 0.3 \<noteq> - 1 \<and>
   getAttackTime clapFrame 2 = - 1 \<and>
   roundingFrame \<noteq> [] \<and> tickTimeData roundingTick = roundingFrame \<and>
   fst (analyze roundingTick thresholdProcessor) = Examined (- 1) (70 * 44100 / 1024) False \<and>
   Max (set (map abs roundingFrame)) < threshold (options thresholdProcessor)"
proof -
  have ne: "clapFrame \<noteq> []" by (simp add: clapFrame_def)
  have r: "root_mean_square clapFrame = 1 / 2"
    by (simp add: root_mean_square_def clapFrame_def sqrt_quarter)
  have m: "Max (set (map abs clapFrame)) = 1" by (simp add: clapFrame_def)
  have above: "0.3 < root_mean_square clapFrame" unfolding r by simp
  have below: "Max (set (map abs clapFrame)) < 2" unfolding m by simp
  have g: "getAttackTime clapFrame 0.3 \<noteq> - 1"
    using sentinel_needs_peak_below_threshold[OF ne, of "0.3"] above by blast
  have s: "getAttackTime clapFrame 2 = - 1"
    using sentinel_needs_peak_below_threshold[OF ne, of 2] below by blast
  have ne2: "roundingFrame \<noteq> []" by (simp add: roundingFrame_def)
  have td: "tickTimeData roundingTick = roundingFrame" by (simp add: roundingTick_def)
  have pk: "Max (set (map abs roundingFrame)) < threshold (options thresholdProcessor)"
    using sentinel_needs_peak_below_threshold[OF ne2, of 0] td analyze_roundingTick by blast
  have first: "clapFrame \<noteq> [] \<and> root_mean_square clapFrame = 1 / 2 \<and>
     Max (set (map abs clapFrame)) = 1 \<and> (0.3 :: real) < 1 / 2 \<and>
     getAttackTime clapFrame 0.3 \<noteq> - 1 \<and> getAttackTime clapFrame 2 = - 1"
    using ne r m g s by simp
  show ?thesis using first ne2 td analyze_roundingTick pk by blast
qed

text \<open>
  The claim as stated fails of the code as it runs: the RMS is computed in double
  arithmetic, and over the 512 samples of \<open>roundingFrame\<close> the rounded sum of squares
  ends above the exact one. The computed RMS exceeds the threshold while every sample
  is below it: the frame passes the gate, \<open>getAttackTime\<close> returns \<open>-1\<close>, and the pass
  compares \<open>-1\<close> with the attack-time bounds (and emits no \<open>clap\<close>).
\<close>

theorem rounded_rms_exceeds_peak:
  "roundingFrame \<noteq> [] \<and>
   Max (set (map abs roundingFrame)) < roundingThreshold \<and>
   calculateRMS roundingFrame \<noteq> None \<and>
   roundingThreshold < the (calculateRMS roundingFrame) \<and>
   threshold (options thresholdProcessor) = roundingThreshold \<and>
   getAttackTime roundingFrame roundingThreshold = - 1 \<and>
   fst (analyze \<lparr> tickTimeData = roundingFrame, tickFrequencyData = clapSpectrum,
                   tickNow = 1000, tickRaf = 2 \<rparr> thresholdProcessor) =
     Examined (- 1) (70 * 44100 / 1024) False"
proof -
  obtain r where r: "calculateRMS roundingFrame = Some r" and gt: "roundingThreshold < r"
    using rms_exceeds_roundingThreshold by blast
  have pk: "Max (set (map abs roundingFrame)) < roundingThreshold"
    unfolding peak_roundingFrame by (simp add: roundingSample_def roundingThreshold_def)
  have ne: "roundingFrame \<noteq> []" by (simp add: roundingFrame_def)
  have th: "threshold (options thresholdProcessor) = roundingThreshold"
    by (simp add: thresholdProcessor_eq)
  have an: "fst (analyze \<lparr> tickTimeData = roundingFrame, tickFrequencyData = clapSpectrum,
                   tickNow = 1000, tickRaf = 2 \<rparr> thresholdProcessor) =
     Examined (- 1) (70 * 44100 / 1024) False"
    using analyze_roundingTick by (simp add: roundingTick_def)
  have c: "calculateRMS roundingFrame \<noteq> None" "roundingThreshold < the (calculateRMS roundingFrame)"
    using r gt by simp_all
  show ?thesis using ne pk c th attack_roundingFrame an by blast
qed


subsection \<open>Starting the processor\<close>

lemma setupAudioProcessing_ok:
  "audioContext p = Some ctx \<Longrightarrow> mediaStream p = Some stream \<Longrightarrow>
   \<exists>q. setupAudioProcessing p = Inr q \<and> isListening q = isListening p"
  by (simp add: setupAudioProcessing_def Let_def)







section \<open>Properties of the clap switch\<close>

lemma emit_fields [simp]:
  "timers (emit ev h) = timers h" "now (emit ev h) = now h"
  "nextTimerId (emit ev h) = nextTimerId h" "emitted (emit ev h) = emitted h @ [(now h, ev)]"
  "startsPending (emit ev h) = startsPending h"
  by (simp_all add: emit_def)

lemma pendingDeadlines_emit [simp]: "pendingDeadlines (emit ev h) = pendingDeadlines h"
  by (simp add: pendingDeadlines_def)

lemma pendingDeadlines_now [simp]: "pendingDeadlines (h\<lparr> now := t \<rparr>) = pendingDeadlines h"
  by (simp add: pendingDeadlines_def)

lemma pendingDeadlines_startsPending [simp]:
  "pendingDeadlines (h\<lparr> startsPending := n \<rparr>) = pendingDeadlines h"
  by (simp add: pendingDeadlines_def)

lemma clearTimeout_fields [simp]:
  "now (clearTimeout i h) = now h" "nextTimerId (clearTimeout i h) = nextTimerId h"
  "emitted (clearTimeout i h) = emitted h" "startsPending (clearTimeout i h) = startsPending h"
  by (simp_all add: clearTimeout_def)

lemma pendingDeadlines_clearTimeout:
  "pendingDeadlines (clearTimeout i h) = filter (\<lambda>t. timerId t \<noteq> i) (pendingDeadlines h)"
  by (simp add: pendingDeadlines_def clearTimeout_def conj_commute)

lemma state_persistState [simp]: "state (persistState sm) = state sm"
  by (simp add: persistState_def)

lemma toggleEvents_persistState [simp]: "toggleEvents (persistState sm) = toggleEvents sm"
  by (simp add: persistState_def)

text \<open>One \<open>toggle()\<close> of the store flips the state and emits one \<open>toggle\<close> event of the store.\<close>

lemma toggle_result:
  "toggle sm =
     (\<not> state sm,
      (persistState (sm\<lparr> state := \<not> state sm \<rparr>))\<lparr> toggleEvents := toggleEvents sm @ [\<not> state sm] \<rparr>)"
  by (simp add: toggle_def setState_def Let_def)

lemma toggle_fields:
  "state (snd (toggle sm)) = (\<not> state sm)"
  "toggleEvents (snd (toggle sm)) = toggleEvents sm @ [\<not> state sm]"
  by (simp_all add: toggle_result)

text \<open>One clap, with the timer of the previous clap (if any) still pending.\<close>

lemma onClap_open:
  assumes "openWindow c d (sw, h)" and "0 \<le> c"
  shows "onClap (sw, h) =
     (if requiredClaps (swOptions sw) \<le> c + 1 then
        (sw\<lparr> clapCount := 0, stateManager := snd (toggle (stateManager sw)) \<rparr>,
         (case clapTimer sw of Some i \<Rightarrow> if i \<noteq> 0 then clearTimeout i h else h | None \<Rightarrow> h)
           \<lparr> emitted := emitted h @ [(now h, Clap (c + 1)), (now h, Pattern (c + 1))] \<rparr>)
      else
        (sw\<lparr> clapCount := c + 1, clapTimer := Some (nextTimerId h) \<rparr>,
         (case clapTimer sw of Some i \<Rightarrow> if i \<noteq> 0 then clearTimeout i h else h | None \<Rightarrow> h)
           \<lparr> emitted := emitted h @ [(now h, Clap (c + 1))],
              nextTimerId := Suc (nextTimerId h),
              timers := timers (case clapTimer sw of Some i \<Rightarrow> if i \<noteq> 0 then clearTimeout i h else h | None \<Rightarrow> h)
                          @ [\<lparr> timerId = nextTimerId h,
                                 due = now h + max 0 (clapTimeout (swOptions sw)),
                                 callback = CancelPattern \<rparr>] \<rparr>))"
  using assms
  by (auto simp add: onClap_def handleClap_def openWindow_def Let_def toggle_result setTimeout_def emit_def clearTimeout_def
      split: option.splits)

lemma cleared_deadlines:
  assumes "openWindow c d (sw, h)"
  shows "pendingDeadlines (case clapTimer sw of Some i \<Rightarrow> if i \<noteq> 0 then clearTimeout i h else h | None \<Rightarrow> h) = []"
  using assms
  by (auto simp add: openWindow_def pendingDeadlines_clearTimeout split: option.splits if_splits)

lemma onClap_accumulates:
  assumes "openWindow c d (sw, h)" and "0 \<le> c" and "c + 1 < requiredClaps (swOptions sw)"
    and "onClap (sw, h) = (sw', h')"
  shows "openWindow (c + 1) (now h + max 0 (clapTimeout (swOptions sw))) (sw', h')"
    and "emitted h' = emitted h @ [(now h, Clap (c + 1))]"
    and "now h' = now h"
    and "swOptions sw' = swOptions sw"
    and "stateManager sw' = stateManager sw"
proof -
  let ?h1 = "case clapTimer sw of Some i \<Rightarrow> if i \<noteq> 0 then clearTimeout i h else h | None \<Rightarrow> h"
  have nid: "nextTimerId h \<noteq> 0" using assms(1) by (simp add: openWindow_def)
  have now1: "now ?h1 = now h" by (simp split: option.splits)
  have eq: "sw' = sw\<lparr> clapCount := c + 1, clapTimer := Some (nextTimerId h) \<rparr>"
       "h' = ?h1\<lparr> emitted := emitted h @ [(now h, Clap (c + 1))],
              nextTimerId := Suc (nextTimerId h),
              timers := timers ?h1 @ [\<lparr> timerId = nextTimerId h,
                                 due = now h + max 0 (clapTimeout (swOptions sw)),
                                 callback = CancelPattern \<rparr>] \<rparr>"
    using assms(3,4) onClap_open[OF assms(1,2)] by simp_all
  have "pendingDeadlines h' = [\<lparr> timerId = nextTimerId h,
                                 due = now h + max 0 (clapTimeout (swOptions sw)),
                                 callback = CancelPattern \<rparr>]"
    using cleared_deadlines[OF assms(1)] unfolding eq by (simp add: pendingDeadlines_def)
  then show "openWindow (c + 1) (now h + max 0 (clapTimeout (swOptions sw))) (sw', h')"
    using nid assms(2) by (simp add: openWindow_def eq)
  show "emitted h' = emitted h @ [(now h, Clap (c + 1))]" by (simp add: eq)
  show "now h' = now h" using now1 by (simp add: eq)
  show "swOptions sw' = swOptions sw" by (simp add: eq)
  show "stateManager sw' = stateManager sw" by (simp add: eq)
qed

lemma onClap_completes:
  assumes "openWindow c d (sw, h)" and "0 \<le> c" and "requiredClaps (swOptions sw) \<le> c + 1"
    and "onClap (sw, h) = (sw', h')"
  shows "clapCount sw' = 0" and "pendingDeadlines h' = []" and "nextTimerId h' \<noteq> 0"
    and "emitted h' = emitted h @ [(now h, Clap (c + 1)), (now h, Pattern (c + 1))]"
    and "now h' = now h"
    and "swOptions sw' = swOptions sw"
    and "stateManager sw' = snd (toggle (stateManager sw))"
proof -
  let ?h1 = "case clapTimer sw of Some i \<Rightarrow> if i \<noteq> 0 then clearTimeout i h else h | None \<Rightarrow> h"
  have nid: "nextTimerId h \<noteq> 0" using assms(1) by (simp add: openWindow_def)
  have now1: "now ?h1 = now h" and nid1: "nextTimerId ?h1 = nextTimerId h"
    by (simp_all split: option.splits)
  have eq: "sw' = sw\<lparr> clapCount := 0, stateManager := snd (toggle (stateManager sw)) \<rparr>"
       "h' = ?h1\<lparr> emitted := emitted h @ [(now h, Clap (c + 1)), (now h, Pattern (c + 1))] \<rparr>"
    using assms(3,4) onClap_open[OF assms(1,2)] by simp_all
  show "clapCount sw' = 0" by (simp add: eq)
  show "pendingDeadlines h' = []"
    using cleared_deadlines[OF assms(1)] unfolding eq by (simp add: pendingDeadlines_def)
  show "nextTimerId h' \<noteq> 0" using nid nid1 by (simp add: eq)
  show "emitted h' = emitted h @ [(now h, Clap (c + 1)), (now h, Pattern (c + 1))]"
    by (simp add: eq)
  show "now h' = now h" using now1 by (simp add: eq)
  show "swOptions sw' = swOptions sw" by (simp add: eq)
  show "stateManager sw' = snd (toggle (stateManager sw))" by (simp add: eq)
qed

text \<open>The timer queue under the scheduler.\<close>

lemma earliest_mem: "earliest ts = Some u \<Longrightarrow> u \<in> set ts"
  by (induction ts arbitrary: u) (auto split: option.splits if_splits)

lemma earliest_None: "earliest ts = None \<longleftrightarrow> ts = []"
  by (cases ts) (auto split: option.splits)

lemma earliest_least: "earliest ts = Some u \<Longrightarrow> x \<in> set ts \<Longrightarrow> due u \<le> due x"
proof (induction ts arbitrary: u)
  case Nil
  then show ?case by simp
next
  case (Cons a ts)
  show ?case
  proof (cases "earliest ts")
    case None
    then have "ts = []" by (simp add: earliest_None)
    then show ?thesis using Cons.prems by simp
  next
    case (Some v)
    then have le: "x \<in> set ts \<Longrightarrow> due v \<le> due x" using Cons.IH by blast
    show ?thesis
    proof (cases "due v < due a")
      case True
      then have "u = v" using Cons.prems(1) Some by simp
      then show ?thesis using Cons.prems(2) le True by auto
    next
      case False
      then have "u = a" using Cons.prems(1) Some by simp
      then show ?thesis using Cons.prems(2) le False by auto
    qed
  qed
qed

lemma nextDue_Some:
  assumes "nextDue t ts = Some u"
  shows "u \<in> set ts" and "due u \<le> t" and "\<And>x. x \<in> set ts \<Longrightarrow> due x \<le> t \<Longrightarrow> due u \<le> due x"
  using assms earliest_mem[of "filter (\<lambda>x. due x \<le> t) ts" u]
    earliest_least[of "filter (\<lambda>x. due x \<le> t) ts" u]
  by (auto simp add: nextDue_def)

lemma nextDue_None: "nextDue t ts = None \<longleftrightarrow> (\<forall>x\<in>set ts. t < due x)"
  by (auto simp add: nextDue_def earliest_None filter_empty_conv not_le)

lemma callback_cases: "callback u \<noteq> CancelPattern \<Longrightarrow> callback u = AutoStart"
  by (cases "callback u") simp_all

lemma fireTimer_autoStart:
  "u \<in> set (timers h) \<Longrightarrow> callback u = AutoStart \<Longrightarrow>
   fireTimer u (sw, h) =
     (sw, h\<lparr> timers := remove1 u (timers h), startsPending := Suc (startsPending h) \<rparr>)"
  by (simp add: fireTimer_def)

lemma fireTimer_cancelPattern:
  "u \<in> set (timers h) \<Longrightarrow> callback u = CancelPattern \<Longrightarrow>
   fireTimer u (sw, h) =
     (sw\<lparr> clapCount := 0 \<rparr>,
      if clapCount sw > 0 then emit (PatternCanceled (clapCount sw)) (h\<lparr> timers := remove1 u (timers h) \<rparr>)
      else h\<lparr> timers := remove1 u (timers h) \<rparr>)"
  by (simp add: fireTimer_def cancelPattern_def)

text \<open>Starting the processor emits at most one event, and never \<open>clap\<close>.\<close>

lemma start_events:
  "fst (snd (start ch p)) = [] \<or> fst (snd (start ch p)) = [StartEvent] \<or>
   (\<exists>e. fst (snd (start ch p)) = [ErrorEvent e])"
  by (auto simp add: start_def Let_def split: if_splits sum.splits option.splits)

text \<open>
  A start that goes on leaves the pattern state, the store and the timers alone; what it
  emits are \<open>start\<close> and \<open>error\<close> events.
\<close>

lemma switchStart_pattern:
  assumes "switchStart hasMic ch (sw, h) = (res, sw', h')"
  shows "clapCount sw' = clapCount sw" and "clapTimer sw' = clapTimer sw"
    and "swOptions sw' = swOptions sw" and "stateManager sw' = stateManager sw"
    and "timers h' = timers h" and "nextTimerId h' = nextTimerId h" and "now h' = now h"
    and "startsPending h' = startsPending h"
    and "\<exists>new. emitted h' = emitted h @ new \<and> (\<forall>x\<in>set new. \<not> patternEvent (snd x))"
proof -
  obtain r evs q where st: "start ch (audioProcessor sw) = (r, evs, q)"
    by (cases "start ch (audioProcessor sw)") auto
  have evs: "evs = [] \<or> evs = [StartEvent] \<or> (\<exists>e. evs = [ErrorEvent e])"
    using start_events[of ch "audioProcessor sw"] st by simp
  have all: "clapCount sw' = clapCount sw \<and> clapTimer sw' = clapTimer sw \<and>
    swOptions sw' = swOptions sw \<and> stateManager sw' = stateManager sw \<and>
    timers h' = timers h \<and> nextTimerId h' = nextTimerId h \<and> now h' = now h \<and>
    startsPending h' = startsPending h \<and>
    (\<exists>new. emitted h' = emitted h @ new \<and> (\<forall>x\<in>set new. \<not> patternEvent (snd x)))"
  proof (cases hasMic)
    case False
    then show ?thesis using assms by (auto simp add: switchStart_def Let_def)
  next
    case True
    from evs show ?thesis
    proof (elim disjE exE)
      assume "evs = []"
      then show ?thesis using assms True st
        by (auto simp add: switchStart_def Let_def split: sum.splits)
    next
      assume "evs = [StartEvent]"
      then show ?thesis using assms True st
        by (auto simp add: switchStart_def Let_def split: sum.splits)
    next
      fix e assume "evs = [ErrorEvent e]"
      then show ?thesis using assms True st
        by (auto simp add: switchStart_def Let_def split: sum.splits)
    qed
  qed
  then show "clapCount sw' = clapCount sw" and "clapTimer sw' = clapTimer sw"
    and "swOptions sw' = swOptions sw" and "stateManager sw' = stateManager sw"
    and "timers h' = timers h" and "nextTimerId h' = nextTimerId h" and "now h' = now h"
    and "startsPending h' = startsPending h"
    and "\<exists>new. emitted h' = emitted h @ new \<and> (\<forall>x\<in>set new. \<not> patternEvent (snd x))"
    by simp_all
qed

lemma settleStart_pattern:
  assumes "settleStart hasMic ch (sw, h) = (sw', h')"
  shows "clapCount sw' = clapCount sw" and "clapTimer sw' = clapTimer sw"
    and "swOptions sw' = swOptions sw" and "stateManager sw' = stateManager sw"
    and "timers h' = timers h" and "nextTimerId h' = nextTimerId h" and "now h' = now h"
    and "\<exists>new. emitted h' = emitted h @ new \<and> (\<forall>x\<in>set new. \<not> patternEvent (snd x))"
proof -
  have all: "clapCount sw' = clapCount sw \<and> clapTimer sw' = clapTimer sw \<and>
    swOptions sw' = swOptions sw \<and> stateManager sw' = stateManager sw \<and>
    timers h' = timers h \<and> nextTimerId h' = nextTimerId h \<and> now h' = now h \<and>
    (\<exists>new. emitted h' = emitted h @ new \<and> (\<forall>x\<in>set new. \<not> patternEvent (snd x)))"
  proof (cases "startsPending h = 0")
    case True
    then have "sw' = sw" "h' = h" using assms by (simp_all add: settleStart_def)
    then show ?thesis by simp
  next
    case False
    let ?g = "h\<lparr> startsPending := startsPending h - 1 \<rparr>"
    obtain res where r: "switchStart hasMic ch (sw, ?g) = (res, sw', h')"
      using assms False by (cases "switchStart hasMic ch (sw, ?g)") (simp add: settleStart_def)
    show ?thesis using switchStart_pattern[OF r] by simp
  qed
  then show "clapCount sw' = clapCount sw" and "clapTimer sw' = clapTimer sw"
    and "swOptions sw' = swOptions sw" and "stateManager sw' = stateManager sw"
    and "timers h' = timers h" and "nextTimerId h' = nextTimerId h" and "now h' = now h"
    and "\<exists>new. emitted h' = emitted h @ new \<and> (\<forall>x\<in>set new. \<not> patternEvent (snd x))"
    by simp_all
qed

lemma settleStart_patternLog:
  assumes "settleStart hasMic ch (sw, h) = (sw', h')"
  shows "patternLog h' = patternLog h" and "pendingDeadlines h' = pendingDeadlines h"
proof -
  obtain new where n: "emitted h' = emitted h @ new" "\<forall>x\<in>set new. \<not> patternEvent (snd x)"
    using settleStart_pattern(8)[OF assms] by blast
  have "filter patternEvent (map snd new) = []" using n(2) by (simp add: filter_empty_conv)
  then show "patternLog h' = patternLog h" by (simp add: patternLog_def events_def n(1))
  show "pendingDeadlines h' = pendingDeadlines h"
    using settleStart_pattern(5)[OF assms] by (simp add: pendingDeadlines_def)
qed

lemma pendingDeadlines_remove1:
  "timers g = remove1 u (timers h) \<Longrightarrow> pendingDeadlines g = remove1 u (pendingDeadlines h)"
  by (simp add: pendingDeadlines_def filter_remove1)

lemma pendingDeadlines_mem:
  "u \<in> set (pendingDeadlines h) \<longleftrightarrow> u \<in> set (timers h) \<and> callback u = CancelPattern"
  by (auto simp add: pendingDeadlines_def)

lemma advanceTo_quiet:
  "\<forall>u\<in>set (pendingDeadlines (snd w)). t < due u \<Longrightarrow>
   fst (advanceTo t w) = fst w \<and>
   emitted (snd (advanceTo t w)) = emitted (snd w) \<and>
   pendingDeadlines (snd (advanceTo t w)) = pendingDeadlines (snd w) \<and>
   now (snd (advanceTo t w)) = max (now (snd w)) t \<and>
   nextTimerId (snd (advanceTo t w)) = nextTimerId (snd w)"
proof (induction t w rule: advanceTo.induct)
  case (1 t sw h)
  show ?case
  proof (cases "nextDue t (timers h)")
    case None
    then show ?thesis by (simp add: advanceTo.simps)
  next
    case (Some u)
    have mem: "u \<in> set (timers h)" and dueu: "due u \<le> t"
      using nextDue_Some[OF Some] by simp_all
    have "u \<notin> set (pendingDeadlines h)" using "1.prems" dueu by fastforce
    then have cb: "callback u = AutoStart" using mem by (simp add: pendingDeadlines_mem callback_cases)
    let ?h1 = "h\<lparr> now := max (now h) (due u) \<rparr>"
    let ?h2 = "?h1\<lparr> timers := remove1 u (timers ?h1), startsPending := Suc (startsPending ?h1) \<rparr>"
    have fire: "fireTimer u (sw, ?h1) = (sw, ?h2)"
      using mem cb by (simp add: fireTimer_autoStart)
    have pd: "pendingDeadlines ?h2 = pendingDeadlines h"
      using \<open>u \<notin> set (pendingDeadlines h)\<close>
      by (simp add: pendingDeadlines_remove1[of _ u h] remove1_idem)
    have ih: "fst (advanceTo t (fireTimer u (sw, ?h1))) = fst (fireTimer u (sw, ?h1)) \<and>
      emitted (snd (advanceTo t (fireTimer u (sw, ?h1)))) = emitted (snd (fireTimer u (sw, ?h1))) \<and>
      pendingDeadlines (snd (advanceTo t (fireTimer u (sw, ?h1)))) = pendingDeadlines (snd (fireTimer u (sw, ?h1))) \<and>
      now (snd (advanceTo t (fireTimer u (sw, ?h1)))) = max (now (snd (fireTimer u (sw, ?h1)))) t \<and>
      nextTimerId (snd (advanceTo t (fireTimer u (sw, ?h1)))) = nextTimerId (snd (fireTimer u (sw, ?h1)))"
      using "1.IH"[OF Some] "1.prems" pd unfolding fire by simp
    have unf: "advanceTo t (sw, h) = advanceTo t (fireTimer u (sw, ?h1))"
      using Some by (simp add: advanceTo.simps)
    show ?thesis unfolding unf using ih pd dueu unfolding fire by simp
  qed
qed

lemma advanceTo_fires:
  "pendingDeadlines (snd w) = [u] \<Longrightarrow> due u \<le> t \<Longrightarrow> now (snd w) \<le> due u \<Longrightarrow> 0 < clapCount (fst w) \<Longrightarrow>
   fst (advanceTo t w) = (fst w)\<lparr> clapCount := 0 \<rparr> \<and>
   emitted (snd (advanceTo t w)) = emitted (snd w) @ [(due u, PatternCanceled (clapCount (fst w)))] \<and>
   pendingDeadlines (snd (advanceTo t w)) = [] \<and>
   now (snd (advanceTo t w)) = t \<and>
   nextTimerId (snd (advanceTo t w)) = nextTimerId (snd w)"
proof (induction t w rule: advanceTo.induct)
  case (1 t sw h)
  have pd: "pendingDeadlines h = [u]" and ut: "due u \<le> t" and nu: "now h \<le> due u"
    and cnt: "0 < clapCount sw"
    using "1.prems" by simp_all
  have umem: "u \<in> set (timers h)" and ucb: "callback u = CancelPattern"
    using pd pendingDeadlines_mem[of u h] by simp_all
  obtain v where Some: "nextDue t (timers h) = Some v"
    using umem ut by (cases "nextDue t (timers h)") (auto simp add: nextDue_None)
  have mem: "v \<in> set (timers h)" and duev: "due v \<le> t" and least: "due v \<le> due u"
    using nextDue_Some[OF Some] umem ut by simp_all
  let ?h1 = "h\<lparr> now := max (now h) (due v) \<rparr>"
  have unf: "advanceTo t (sw, h) = advanceTo t (fireTimer v (sw, ?h1))"
    using Some by (simp add: advanceTo.simps)
  show ?case
  proof (cases "callback v")
    case AutoStart
    then have vnot: "v \<notin> set (pendingDeadlines h)" by (simp add: pendingDeadlines_mem)
    let ?h3 = "?h1\<lparr> timers := remove1 v (timers ?h1), startsPending := Suc (startsPending ?h1) \<rparr>"
    have fire: "fireTimer v (sw, ?h1) = (sw, ?h3)"
      using mem AutoStart by (simp add: fireTimer_autoStart)
    have pd1: "pendingDeadlines ?h3 = [u]"
      using vnot pd by (simp add: pendingDeadlines_remove1[of _ v h] remove1_idem)
    have "now ?h3 \<le> due u" using nu least by simp
    then show ?thesis
      unfolding unf using "1.IH"[OF Some] pd1 ut cnt unfolding fire by simp
  next
    case CancelPattern
    then have "v \<in> set (pendingDeadlines h)" using mem by (simp add: pendingDeadlines_mem)
    then have vu: "v = u" using pd by simp
    let ?h2 = "emit (PatternCanceled (clapCount sw)) (?h1\<lparr> timers := remove1 v (timers ?h1) \<rparr>)"
    have fire: "fireTimer v (sw, ?h1) = (sw\<lparr> clapCount := 0 \<rparr>, ?h2)"
      using mem CancelPattern cnt by (simp add: fireTimer_cancelPattern)
    have pd2: "pendingDeadlines ?h2 = []"
      using pd vu by (simp add: pendingDeadlines_remove1[of _ v h])
    have q: "fst (advanceTo t (sw\<lparr> clapCount := 0 \<rparr>, ?h2)) = sw\<lparr> clapCount := 0 \<rparr> \<and>
      emitted (snd (advanceTo t (sw\<lparr> clapCount := 0 \<rparr>, ?h2))) = emitted ?h2 \<and>
      pendingDeadlines (snd (advanceTo t (sw\<lparr> clapCount := 0 \<rparr>, ?h2))) = pendingDeadlines ?h2 \<and>
      now (snd (advanceTo t (sw\<lparr> clapCount := 0 \<rparr>, ?h2))) = max (now ?h2) t \<and>
      nextTimerId (snd (advanceTo t (sw\<lparr> clapCount := 0 \<rparr>, ?h2))) = nextTimerId ?h2"
      using advanceTo_quiet[of "(sw\<lparr> clapCount := 0 \<rparr>, ?h2)" t] pd2 by simp
    have nowh: "max (now h) (due u) = due u" using nu by simp
    show ?thesis
      unfolding unf fire using q pd2 vu nowh ut by simp
  qed
qed

lemma openWindow_cong:
  "clapCount sw' = clapCount sw \<Longrightarrow> clapTimer sw' = clapTimer sw \<Longrightarrow>
   nextTimerId h' = nextTimerId h \<Longrightarrow> pendingDeadlines h' = pendingDeadlines h \<Longrightarrow>
   openWindow c d (sw', h') = openWindow c d (sw, h)"
  by (simp add: openWindow_def cong: option.case_cong)

lemma openWindow_deadlines_later:
  "openWindow c d (sw, h) \<Longrightarrow> c \<noteq> 0 \<longrightarrow> t < d \<Longrightarrow> \<forall>u\<in>set (pendingDeadlines h). t < due u"
  by (auto simp add: openWindow_def split: option.splits if_splits)

lemma advanceTo_open:
  assumes "openWindow c d (sw, h)" and "c \<noteq> 0 \<longrightarrow> t < d" and "now h \<le> t"
  obtains h1 where "advanceTo t (sw, h) = (sw, h1)" and "openWindow c d (sw, h1)"
    and "emitted h1 = emitted h" and "now h1 = t"
proof -
  have q: "\<forall>u\<in>set (pendingDeadlines (snd (sw, h))). t < due u"
    using openWindow_deadlines_later[OF assms(1,2)] by simp
  obtain sw1 h1 where r: "advanceTo t (sw, h) = (sw1, h1)" by (cases "advanceTo t (sw, h)")
  have f: "sw1 = sw" "emitted h1 = emitted h" "pendingDeadlines h1 = pendingDeadlines h"
    "now h1 = max (now h) t" "nextTimerId h1 = nextTimerId h"
    using advanceTo_quiet[OF q] r by simp_all
  have "openWindow c d (sw, h1)"
    using assms(1) openWindow_cong[of sw sw h1 h c d] f by simp
  then show ?thesis using that[of h1] r f assms(3) by simp
qed

lemma clapAt_accumulates:
  assumes "openWindow c d (sw, h)" and "0 \<le> c" and "c \<noteq> 0 \<longrightarrow> t < d" and "now h \<le> t"
    and "c + 1 < requiredClaps (swOptions sw)"
    and "clapAt t (sw, h) = (sw', h')"
  shows "openWindow (c + 1) (t + max 0 (clapTimeout (swOptions sw))) (sw', h')"
    and "emitted h' = emitted h @ [(t, Clap (c + 1))]"
    and "now h' = t"
    and "swOptions sw' = swOptions sw"
    and "stateManager sw' = stateManager sw"
proof -
  obtain h1 where a: "advanceTo t (sw, h) = (sw, h1)" and o: "openWindow c d (sw, h1)"
    and e: "emitted h1 = emitted h" and n: "now h1 = t"
    using advanceTo_open[OF assms(1,3,4)] by blast
  have c: "onClap (sw, h1) = (sw', h')" using assms(6) a by (simp add: clapAt_def)
  show "openWindow (c + 1) (t + max 0 (clapTimeout (swOptions sw))) (sw', h')"
    using onClap_accumulates(1)[OF o assms(2,5) c] n by simp
  show "emitted h' = emitted h @ [(t, Clap (c + 1))]"
    using onClap_accumulates(2)[OF o assms(2,5) c] n e by simp
  show "now h' = t" using onClap_accumulates(3)[OF o assms(2,5) c] n by simp
  show "swOptions sw' = swOptions sw" using onClap_accumulates(4)[OF o assms(2,5) c] .
  show "stateManager sw' = stateManager sw" using onClap_accumulates(5)[OF o assms(2,5) c] .
qed

lemma clapAt_completes:
  assumes "openWindow c d (sw, h)" and "0 \<le> c" and "c \<noteq> 0 \<longrightarrow> t < d" and "now h \<le> t"
    and "requiredClaps (swOptions sw) \<le> c + 1"
    and "clapAt t (sw, h) = (sw', h')"
  shows "clapCount sw' = 0" and "pendingDeadlines h' = []"
    and "emitted h' = emitted h @ [(t, Clap (c + 1)), (t, Pattern (c + 1))]"
    and "stateManager sw' = snd (toggle (stateManager sw))"
proof -
  obtain h1 where a: "advanceTo t (sw, h) = (sw, h1)" and o: "openWindow c d (sw, h1)"
    and e: "emitted h1 = emitted h" and n: "now h1 = t"
    using advanceTo_open[OF assms(1,3,4)] by blast
  have c: "onClap (sw, h1) = (sw', h')" using assms(6) a by (simp add: clapAt_def)
  show "clapCount sw' = 0" using onClap_completes(1)[OF o assms(2,5) c] .
  show "pendingDeadlines h' = []" using onClap_completes(2)[OF o assms(2,5) c] .
  show "emitted h' = emitted h @ [(t, Clap (c + 1)), (t, Pattern (c + 1))]"
    using onClap_completes(4)[OF o assms(2,5) c] n e by simp
  show "stateManager sw' = snd (toggle (stateManager sw))"
    using onClap_completes(7)[OF o assms(2,5) c] .
qed

lemma spaced_snoc:
  "spaced d (ts @ [t]) \<longleftrightarrow> spaced d ts \<and> (ts \<noteq> [] \<longrightarrow> last ts \<le> t \<and> t - last ts < d)"
  by (induction d ts rule: spaced.induct) auto

lemma clapEntries_snoc: "clapEntries c (ts @ [t]) = clapEntries c ts @ [(t, Clap (c + int (length ts) + 1))]"
  by (induction ts arbitrary: c) (auto simp add: algebra_simps)

lemma feedClaps_snoc: "feedClaps (ts @ [t]) w = clapAt t (feedClaps ts w)"
  by (simp add: feedClaps_def)

lemma feedClaps_accumulates:
  assumes "openWindow 0 d (sw, h)" and "ts \<noteq> []" and "now h \<le> hd ts"
    and "spaced (clapTimeout (swOptions sw)) ts"
    and "int (length ts) < requiredClaps (swOptions sw)"
    and "feedClaps ts (sw, h) = (sw', h')"
  shows "openWindow (int (length ts)) (last ts + max 0 (clapTimeout (swOptions sw))) (sw', h') \<and>
         emitted h' = emitted h @ clapEntries 0 ts \<and> now h' = last ts \<and>
         swOptions sw' = swOptions sw \<and> stateManager sw' = stateManager sw"
  using assms(2-6)
proof (induction ts arbitrary: sw' h' rule: rev_induct)
  case Nil
  then show ?case by simp
next
  case (snoc t ts)
  obtain sw1 h1 where f: "feedClaps ts (sw, h) = (sw1, h1)" by (cases "feedClaps ts (sw, h)")
  have c: "clapAt t (sw1, h1) = (sw', h')" using snoc.prems(5) f by (simp add: feedClaps_snoc)
  have sp: "spaced (clapTimeout (swOptions sw)) ts"
    and gap: "ts \<noteq> [] \<longrightarrow> last ts \<le> t \<and> t - last ts < clapTimeout (swOptions sw)"
    using snoc.prems(3) by (simp_all add: spaced_snoc)
  have len: "int (length ts) + 1 < requiredClaps (swOptions sw)" using snoc.prems(4) by simp
  show ?case
  proof (cases "ts = []")
    case True
    then have e: "sw1 = sw" "h1 = h" using f by (simp_all add: feedClaps_def)
    have nt: "now h \<le> t" using snoc.prems(2) True by simp
    have c0: "clapAt t (sw, h) = (sw', h')" using c unfolding e .
    have z: "(0::int) \<le> 0" "(0::int) \<noteq> 0 \<longrightarrow> t < d" by simp_all
    have req0: "0 + 1 < requiredClaps (swOptions sw)" using len True by simp
    show ?thesis
      using clapAt_accumulates[OF assms(1) z nt req0 c0] True by simp
  next
    case False
    then have hd: "now h \<le> hd ts" using snoc.prems(2) by (cases ts) simp_all
    have lenp: "int (length ts) < requiredClaps (swOptions sw)" using len by simp
    have ih: "openWindow (int (length ts)) (last ts + max 0 (clapTimeout (swOptions sw))) (sw1, h1)"
      "emitted h1 = emitted h @ clapEntries 0 ts" "now h1 = last ts"
      "swOptions sw1 = swOptions sw" "stateManager sw1 = stateManager sw"
      using snoc.IH[OF False hd sp lenp f] by simp_all
    have before: "int (length ts) \<noteq> 0 \<longrightarrow> t < last ts + max 0 (clapTimeout (swOptions sw))"
      using gap False by linarith
    have nt: "now h1 \<le> t" using ih(3) gap False by simp
    have req: "int (length ts) + 1 < requiredClaps (swOptions sw1)" using len ih(4) by simp
    have nn: "0 \<le> int (length ts)" by simp
    show ?thesis
      using clapAt_accumulates[OF ih(1) nn before nt req c] ih(2,4,5)
      by (simp add: clapEntries_snoc add.commute)
  qed
qed

lemma idle_open: "clapCount sw = 0 \<Longrightarrow> pendingDeadlines h = [] \<Longrightarrow> nextTimerId h \<noteq> 0 \<Longrightarrow> openWindow 0 d (sw, h)"
  by (simp add: openWindow_def)

text \<open>
  Pattern completion with times: \<open>requiredClaps\<close> claps, each less than
  \<open>clapTimeout\<close> ms after the one before, complete the pattern at the time of the
  last one, and the store is toggled once.
\<close>

lemma claps_within_window_complete:
  assumes "clapCount sw = 0" and "pendingDeadlines h = []" and "nextTimerId h \<noteq> 0"
    and "1 \<le> requiredClaps (swOptions sw)"
    and "int (length ts) = requiredClaps (swOptions sw)"
    and "now h \<le> hd ts" and "spaced (clapTimeout (swOptions sw)) ts"
    and "feedClaps ts (sw, h) = (sw', h')"
  shows "emitted h' = emitted h @ clapEntries 0 ts @
           [(last ts, Pattern (requiredClaps (swOptions sw)))] \<and>
         stateManager sw' = snd (toggle (stateManager sw)) \<and>
         clapCount sw' = 0 \<and> pendingDeadlines h' = []"
proof -
  have ne: "ts \<noteq> []" using assms(4,5) by auto
  then obtain us t where ts: "ts = us @ [t]" by (cases ts rule: rev_cases) auto
  obtain sw1 h1 where f: "feedClaps us (sw, h) = (sw1, h1)" by (cases "feedClaps us (sw, h)")
  have c: "clapAt t (sw1, h1) = (sw', h')" using assms(8) f by (simp add: ts feedClaps_snoc)
  have sp: "spaced (clapTimeout (swOptions sw)) us"
    and gap: "us \<noteq> [] \<longrightarrow> last us \<le> t \<and> t - last us < clapTimeout (swOptions sw)"
    using assms(7) by (simp_all add: ts spaced_snoc)
  have len: "int (length us) + 1 = requiredClaps (swOptions sw)" using assms(5) by (simp add: ts)
  have idle: "openWindow 0 d (sw, h)" for d using idle_open[OF assms(1,2,3)] .
  show ?thesis
  proof (cases "us = []")
    case True
    then have e: "sw1 = sw" "h1 = h" using f by (simp_all add: feedClaps_def)
    have nt: "now h \<le> t" using assms(6) True by (simp add: ts)
    have req: "requiredClaps (swOptions sw) \<le> 0 + 1" using len True by simp
    have c0: "clapAt t (sw, h) = (sw', h')" using c unfolding e .
    have z: "(0::int) \<le> 0" "(0::int) \<noteq> 0 \<longrightarrow> t < 0" by simp_all
    show ?thesis
      using clapAt_completes[OF idle z nt req c0] len True
      by (simp add: ts)
  next
    case False
    then have hd: "now h \<le> hd us" using assms(6) by (cases us) (simp_all add: ts)
    have lenp: "int (length us) < requiredClaps (swOptions sw)" using len by simp
    have acc: "openWindow (int (length us)) (last us + max 0 (clapTimeout (swOptions sw))) (sw1, h1)"
      "emitted h1 = emitted h @ clapEntries 0 us" "now h1 = last us"
      "swOptions sw1 = swOptions sw" "stateManager sw1 = stateManager sw"
      using feedClaps_accumulates[OF idle False hd sp lenp f] by simp_all
    have before: "int (length us) \<noteq> 0 \<longrightarrow> t < last us + max 0 (clapTimeout (swOptions sw))"
      using gap False by linarith
    have nt: "now h1 \<le> t" using acc(3) gap False by simp
    have req: "requiredClaps (swOptions sw1) \<le> int (length us) + 1" using len acc(4) by simp
    have nn: "0 \<le> int (length us)" by simp
    show ?thesis
      using clapAt_completes[OF acc(1) nn before nt req c] acc(2,5)
      unfolding len[symmetric] by (simp add: ts clapEntries_snoc)
  qed
qed

text \<open>
  C2 (pattern cancellation), as amended. From count 0 with no pattern timer pending,
  \<open>k\<close> claps with \<open>0 < k < requiredClaps\<close>, each less than \<open>clapTimeout\<close> ms after the one
  before, followed by silence for more than \<open>clapTimeout\<close> ms, produce the \<open>k\<close> clap
  events and then exactly one \<open>pattern-canceled\<close> event, carrying \<open>k\<close> and emitted
  \<open>clapTimeout\<close> ms after the last clap; the count is 0 afterwards, no pattern timer
  is pending, and however much more time passes nothing further is emitted.
\<close>

theorem pattern_cancellation:
  assumes "clapCount sw = 0" and "pendingDeadlines h = []" and "nextTimerId h \<noteq> 0"
    and "0 \<le> clapTimeout (swOptions sw)"
    and "ts \<noteq> []" and "int (length ts) < requiredClaps (swOptions sw)"
    and "now h \<le> hd ts" and "spaced (clapTimeout (swOptions sw)) ts"
    and "last ts + clapTimeout (swOptions sw) < later"
    and "advanceTo later (feedClaps ts (sw, h)) = (sw', h')"
  shows "emitted h' = emitted h @ clapEntries 0 ts @
           [(last ts + clapTimeout (swOptions sw), PatternCanceled (int (length ts)))] \<and>
         clapCount sw' = 0 \<and> pendingDeadlines h' = [] \<and>
         emitted (snd (advanceTo evenLater (sw', h'))) = emitted h'"
proof -
  obtain sw1 h1 where f: "feedClaps ts (sw, h) = (sw1, h1)" by (cases "feedClaps ts (sw, h)")
  have idle: "openWindow 0 d (sw, h)" for d using idle_open[OF assms(1,2,3)] .
  have acc: "openWindow (int (length ts)) (last ts + max 0 (clapTimeout (swOptions sw))) (sw1, h1)"
      "emitted h1 = emitted h @ clapEntries 0 ts" "now h1 = last ts"
    using feedClaps_accumulates[OF idle assms(5,7,8,6) f] by simp_all
  have pos: "0 < int (length ts)" using assms(5) by simp
  let ?u = "\<lparr> timerId = the (clapTimer sw1), due = last ts + clapTimeout (swOptions sw), callback = CancelPattern \<rparr>"
  have pd: "pendingDeadlines h1 = [?u]" and cnt: "clapCount sw1 = int (length ts)"
    using acc(1) pos assms(4) by (auto simp add: openWindow_def split: option.splits)
  have "fst (advanceTo later (sw1, h1)) = sw1\<lparr> clapCount := 0 \<rparr> \<and>
   emitted (snd (advanceTo later (sw1, h1))) = emitted h1 @ [(due ?u, PatternCanceled (clapCount sw1))] \<and>
   pendingDeadlines (snd (advanceTo later (sw1, h1))) = []"
    using advanceTo_fires[of "(sw1, h1)" ?u later] pd cnt pos assms(4,9) acc(3) by simp
  then have main: "emitted h' = emitted h @ clapEntries 0 ts @
           [(last ts + clapTimeout (swOptions sw), PatternCanceled (int (length ts)))]"
    "clapCount sw' = 0" "pendingDeadlines h' = []"
    using assms(10) f acc(2) cnt by simp_all
  have "emitted (snd (advanceTo evenLater (sw', h'))) = emitted h'"
    using advanceTo_quiet[of "(sw', h')" evenLater] main(3) by simp
  then show ?thesis using main by simp
qed

lemma patternInv_idle:
  "clapCount sw = 0 \<Longrightarrow> pendingDeadlines h = [] \<Longrightarrow> nextTimerId h \<noteq> 0 \<Longrightarrow> patternInv (sw, h)"
  by (simp add: patternInv_def openWindow_def)

lemma patternInv_deadline:
  assumes "patternInv (sw, h)"
  shows "(pendingDeadlines h \<noteq> [] \<longleftrightarrow> 0 < clapCount sw \<and> clapCount sw < requiredClaps (swOptions sw))"
    and "length (pendingDeadlines h) \<le> 1"
  using assms by (auto simp add: patternInv_def openWindow_def split: option.splits if_splits)

lemma patternInv_onClap:
  assumes "patternInv (sw, h)"
  shows "patternInv (onClap (sw, h))"
    and "requiredClaps (swOptions sw) \<le> clapCount sw + 1 \<Longrightarrow>
           clapCount (fst (onClap (sw, h))) = 0 \<and> pendingDeadlines (snd (onClap (sw, h))) = []"
proof -
  obtain d where o: "openWindow (clapCount sw) d (sw, h)" and nn: "0 \<le> clapCount sw"
    using assms by (auto simp add: patternInv_def)
  obtain sw' h' where r: "onClap (sw, h) = (sw', h')" by (cases "onClap (sw, h)")
  show "patternInv (onClap (sw, h))"
  proof (cases "requiredClaps (swOptions sw) \<le> clapCount sw + 1")
    case True
    show ?thesis
      using onClap_completes(1,2,3)[OF o nn True r] unfolding r by (simp add: patternInv_idle)
  next
    case False
    then have lt: "clapCount sw + 1 < requiredClaps (swOptions sw)" by simp
    have "openWindow (clapCount sw + 1) (now h + max 0 (clapTimeout (swOptions sw))) (sw', h')"
      and "swOptions sw' = swOptions sw"
      using onClap_accumulates(1,4)[OF o nn lt r] by simp_all
    moreover from this have "clapCount sw' = clapCount sw + 1" by (simp add: openWindow_def)
    ultimately show ?thesis unfolding r using nn lt by (auto simp add: patternInv_def)
  qed
  show "clapCount (fst (onClap (sw, h))) = 0 \<and> pendingDeadlines (snd (onClap (sw, h))) = []"
    if "requiredClaps (swOptions sw) \<le> clapCount sw + 1"
    using onClap_completes(1,2)[OF o nn that r] unfolding r by simp
qed

lemma patternInv_cong:
  "clapCount sw' = clapCount sw \<Longrightarrow> clapTimer sw' = clapTimer sw \<Longrightarrow>
   swOptions sw' = swOptions sw \<Longrightarrow> nextTimerId h' = nextTimerId h \<Longrightarrow>
   pendingDeadlines h' = pendingDeadlines h \<Longrightarrow> patternInv (sw', h') = patternInv (sw, h)"
  by (simp add: patternInv_def openWindow_cong[of sw' sw h' h])

lemma patternInv_now: "patternInv (sw, h\<lparr> now := t \<rparr>) = patternInv (sw, h)"
  by (rule patternInv_cong) simp_all

lemma patternInv_fireTimer:
  assumes "patternInv (sw, h)"
  shows "patternInv (fireTimer u (sw, h))"
    and "u \<in> set (pendingDeadlines h) \<Longrightarrow>
           clapCount (fst (fireTimer u (sw, h))) = 0 \<and> pendingDeadlines (snd (fireTimer u (sw, h))) = []"
proof -
  have inv: "0 \<le> clapCount sw" "nextTimerId h \<noteq> 0"
    using assms by (auto simp add: patternInv_def openWindow_def)
  have single: "u \<in> set (pendingDeadlines h) \<Longrightarrow> pendingDeadlines h = [u]"
    using assms by (auto simp add: patternInv_def openWindow_def split: option.splits if_splits)
  show "patternInv (fireTimer u (sw, h))"
  proof (cases "u \<in> set (timers h)")
    case False
    then show ?thesis using assms by (simp add: fireTimer_def)
  next
    case mem: True
    show ?thesis
    proof (cases "callback u")
      case AutoStart
      then have "u \<notin> set (pendingDeadlines h)" by (simp add: pendingDeadlines_mem)
      then have "pendingDeadlines (h\<lparr> timers := remove1 u (timers h),
                                      startsPending := Suc (startsPending h) \<rparr>) = pendingDeadlines h"
        by (simp add: pendingDeadlines_remove1[of _ u h] remove1_idem)
      then have "patternInv (sw, h\<lparr> timers := remove1 u (timers h),
                                  startsPending := Suc (startsPending h) \<rparr>) = patternInv (sw, h)"
        by (intro patternInv_cong) simp_all
      then show ?thesis
        using assms mem AutoStart by (simp add: fireTimer_autoStart)
    next
      case CancelPattern
      then have "pendingDeadlines h = [u]" using mem single by (simp add: pendingDeadlines_mem)
      then have "pendingDeadlines (h\<lparr> timers := remove1 u (timers h) \<rparr>) = []"
        by (simp add: pendingDeadlines_remove1[of _ u h])
      then show ?thesis
        using mem CancelPattern inv
        by (simp add: fireTimer_cancelPattern patternInv_idle)
    qed
  qed
  show "clapCount (fst (fireTimer u (sw, h))) = 0 \<and> pendingDeadlines (snd (fireTimer u (sw, h))) = []"
    if "u \<in> set (pendingDeadlines h)"
  proof -
    have mem: "u \<in> set (timers h)" and cb: "callback u = CancelPattern"
      using that by (simp_all add: pendingDeadlines_mem)
    have "pendingDeadlines (h\<lparr> timers := remove1 u (timers h) \<rparr>) = []"
      using single[OF that] by (simp add: pendingDeadlines_remove1[of _ u h])
    then show ?thesis using mem cb by (simp add: fireTimer_cancelPattern)
  qed
qed

lemma patternInv_advanceTo: "patternInv w \<Longrightarrow> patternInv (advanceTo t w)"
proof (induction t w rule: advanceTo.induct)
  case (1 t sw h)
  show ?case
  proof (cases "nextDue t (timers h)")
    case None
    then show ?thesis using "1.prems" by (simp add: patternInv_now advanceTo.simps)
  next
    case (Some u)
    have "patternInv (fireTimer u (sw, h\<lparr> now := max (now h) (due u) \<rparr>))"
      using "1.prems" patternInv_fireTimer(1) by (simp add: patternInv_now)
    then show ?thesis using "1.IH"[OF Some] Some by (simp add: advanceTo.simps)
  qed
qed

lemma patternInv_settleStart: "patternInv w \<Longrightarrow> patternInv (settleStart hasMic ch w)"
proof -
  assume inv: "patternInv w"
  obtain sw h where w: "w = (sw, h)" by (cases w)
  obtain sw' h' where r: "settleStart hasMic ch (sw, h) = (sw', h')"
    by (cases "settleStart hasMic ch (sw, h)")
  have "patternInv (sw', h') = patternInv (sw, h)"
    using settleStart_pattern(1,2,3,6)[OF r] settleStart_patternLog(2)[OF r]
    by (intro patternInv_cong) simp_all
  then show ?thesis using inv by (simp add: w r)
qed

lemma patternInv_step: "patternInv w \<Longrightarrow> patternInv (step i w)"
  by (cases i; cases w)
     (simp_all add: patternInv_onClap(1) patternInv_fireTimer(1) patternInv_advanceTo
        patternInv_settleStart)

lemma patternInv_fold: "patternInv w \<Longrightarrow> patternInv (fold step ins w)"
  by (induction ins arbitrary: w) (simp_all add: patternInv_step)

text \<open>The state the constructor leaves is idle, whatever the options.\<close>

lemma constructed_switch_is_idle:
  assumes "ClapSwitch_new True stored arg h = (Ready sw, h')"
    and "pendingDeadlines h = []" and "nextTimerId h \<noteq> 0"
  shows "clapCount sw = 0 \<and> clapTimer sw = None \<and> pendingDeadlines h' = [] \<and> nextTimerId h' \<noteq> 0"
  using assms
  by (auto simp add: ClapSwitch_new_def initialSwitch_def setupEventListeners_def setTimeout_def
      pendingDeadlines_def Let_def case_prod_beta split: if_splits)

text \<open>
  C7 (pattern state invariant). In every state reached from an idle one (count 0, no
  pattern timer pending) by claps, by the host running pending timers and by time
  passing, a pattern timer is pending exactly when \<open>0 < clapCount < requiredClaps\<close>,
  and never more than one; a clap that completes the pattern and a pattern timer that
  runs both leave the count at 0 with no pattern timer pending.
\<close>

theorem deadline_pending_iff_accumulating:
  assumes "clapCount sw0 = 0" and "pendingDeadlines h0 = []" and "nextTimerId h0 \<noteq> 0"
    and "fold step ins (sw0, h0) = (sw, h)"
  shows "(pendingDeadlines h \<noteq> [] \<longleftrightarrow> 0 < clapCount sw \<and> clapCount sw < requiredClaps (swOptions sw)) \<and>
         length (pendingDeadlines h) \<le> 1 \<and>
         (requiredClaps (swOptions sw) \<le> clapCount sw + 1 \<longrightarrow>
            clapCount (fst (step ClapDetected (sw, h))) = 0 \<and>
            pendingDeadlines (snd (step ClapDetected (sw, h))) = []) \<and>
         (\<forall>u\<in>set (pendingDeadlines h).
            clapCount (fst (step (TimerFires u) (sw, h))) = 0 \<and>
            pendingDeadlines (snd (step (TimerFires u) (sw, h))) = [])"
proof -
  have inv: "patternInv (sw, h)"
    using patternInv_fold[OF patternInv_idle[OF assms(1,2,3)], of ins] assms(4) by simp
  show ?thesis
    using patternInv_deadline[OF inv] patternInv_onClap(2)[OF inv] patternInv_fireTimer(2)[OF inv]
    by simp
qed


subsection \<open>Construction, and the pattern machine on concrete inputs\<close>

lemmas switch_eval =
  onClap_def handleClap_def cancelPattern_def fireTimer_def clapAt_def feedClaps_def
  advanceTo.simps nextDue_def setTimeout_def clearTimeout_def emit_def toggle_def setState_def
  persistState_def pendingDeadlines_def Let_def
  defaultSwitch_def threeClapSwitch_def freshHost_def initialSwitch_def setupEventListeners_def
  StateManager_on_def mergeSwitchOptions_def
  noSwitchOptions_def orDefault_def StateManager_new_def getInitialState_def


text \<open>
  The concrete switches are what the constructor builds on the fresh host; the store of
  a new switch is on.
\<close>

lemma constructed_switches:
  "ClapSwitch_new True None noSwitchOptions freshHost = (Ready defaultSwitch, freshHost)"
  "ClapSwitch_new True None (noSwitchOptions\<lparr> argAutoStart := Some True \<rparr>) freshHost =
     (Ready autoStartSwitch, autoStartHost)"
  "state (stateManager (initialSwitch opts stored))"
  by (simp_all add: ClapSwitch_new_def defaultSwitch_def autoStartSwitch_def autoStartHost_def
      mergeSwitchOptions_def noSwitchOptions_def orDefault_def Let_def
      initialSwitch_def setupEventListeners_def StateManager_on_def setState_def case_prod_beta)

text \<open>
  C8 (configuration validation), as amended. The constructors do not validate: whatever
  the options are, a clap switch built where the Web Audio API is present is complete,
  emits no error, and holds every given value as it was given (the defaults standing in
  for absent keys), and so does its audio processor. The only check of the constructor
  is the one for the Web Audio API, which does not look at the configuration.
\<close>

theorem constructor_accepts_every_configuration:
  "ClapSwitch_new True stored arg h =
     (Ready (initialSwitch (mergeSwitchOptions arg) stored),
      if orDefault (argAutoStart arg) False then snd (setTimeout AutoStart 100 h) else h) \<and>
   emitted (snd (ClapSwitch_new True stored arg h)) = emitted h \<and>
   requiredClaps (swOptions (initialSwitch (mergeSwitchOptions arg) stored)) =
     orDefault (argRequiredClaps arg) 2 \<and>
   clapTimeout (swOptions (initialSwitch (mergeSwitchOptions arg) stored)) =
     orDefault (argClapTimeout arg) 1000 \<and>
   swThreshold (swOptions (initialSwitch (mergeSwitchOptions arg) stored)) =
     orDefault (argSwThreshold arg) 0.3 \<and>
   swFrequencyRange (swOptions (initialSwitch (mergeSwitchOptions arg) stored)) =
     orDefault (argSwFrequencyRange arg) (2000, 4000) \<and>
   options (audioProcessor (initialSwitch (mergeSwitchOptions arg) stored)) =
     \<lparr> threshold = orDefault (argSwThreshold arg) 0.3,
       minDecibels = orDefault (argSwMinDecibels arg) (- 45),
       frequencyRange = orDefault (argSwFrequencyRange arg) (2000, 4000),
       minAttackTime = 5, maxAttackTime = 20,
       debug = orDefault (argSwDebug arg) False \<rparr> \<and>
   ClapSwitch_new False stored arg h =
     (Unsupported (mergeSwitchOptions arg),
      emit (SwitchError (Error ''Web Audio API is not supported in this browser.'')) h)"
  by (simp add: ClapSwitch_new_def Let_def initialSwitch_def setupEventListeners_def
      case_prod_beta mergeSwitchOptions_def
      AudioProcessor_new_def mergeOptions_def setTimeout_def orDefault_def)

text \<open>
  The claim as stated fails: \<open>requiredClaps = 0\<close> and the frequency range
  \<open>[4000, 2000]\<close> are accepted, reach the audio processor, and the switch runs with
  them: its first clap already completes a pattern and turns the store, which the
  constructor left on, off.
\<close>

theorem invalid_configuration_is_accepted:
  "ClapSwitch_new True None invalidSwitchOptions freshHost =
     (Ready (initialSwitch (mergeSwitchOptions invalidSwitchOptions) None), freshHost) \<and>
   \<not> spec_valid_config (mergeSwitchOptions invalidSwitchOptions) \<and>
   requiredClaps (mergeSwitchOptions invalidSwitchOptions) = 0 \<and>
   swFrequencyRange (mergeSwitchOptions invalidSwitchOptions) = (4000, 2000) \<and>
   frequencyRange (options (audioProcessor (initialSwitch (mergeSwitchOptions invalidSwitchOptions) None))) =
     (4000, 2000) \<and>
   emitted (snd (onClap (initialSwitch (mergeSwitchOptions invalidSwitchOptions) None, freshHost))) =
     [(0, Clap 1), (0, Pattern 1)] \<and>
   state (stateManager (initialSwitch (mergeSwitchOptions invalidSwitchOptions) None)) \<and>
   \<not> state (stateManager (fst (onClap
       (initialSwitch (mergeSwitchOptions invalidSwitchOptions) None, freshHost))))"
  by (simp add: ClapSwitch_new_def invalidSwitchOptions_def spec_valid_config_def
      AudioProcessor_new_def mergeOptions_def switch_eval)

lemma scenario_C_completes:
  "emitted (snd (feedClaps [0, 400] (defaultSwitch, freshHost))) =
     [(0, Clap 1), (400, Clap 2), (400, Pattern 2)] \<and>
   state (stateManager defaultSwitch) \<and>
   \<not> state (stateManager (fst (feedClaps [0, 400] (defaultSwitch, freshHost)))) \<and>
   clapCount (fst (feedClaps [0, 400] (defaultSwitch, freshHost))) = 0 \<and>
   pendingDeadlines (snd (feedClaps [0, 400] (defaultSwitch, freshHost))) = []"
proof -
  have h: "clapCount defaultSwitch = 0" "pendingDeadlines freshHost = []" "nextTimerId freshHost \<noteq> 0"
    "1 \<le> requiredClaps (swOptions defaultSwitch)"
    "int (length [0, 400 :: int]) = requiredClaps (swOptions defaultSwitch)"
    "now freshHost \<le> hd [0, 400]" "spaced (clapTimeout (swOptions defaultSwitch)) [0, 400]"
    by (simp_all add: defaultSwitch_def freshHost_def initialSwitch_def setupEventListeners_def
        case_prod_beta mergeSwitchOptions_def
        noSwitchOptions_def orDefault_def pendingDeadlines_def)
  have v: "requiredClaps (swOptions defaultSwitch) = 2" "state (stateManager defaultSwitch)"
    "emitted freshHost = []"
    by (simp_all add: switch_eval)
  show ?thesis
    using claps_within_window_complete[OF h prod.collapse[symmetric]] v
    by (simp add: toggle_fields)
qed

text \<open>
  The cancellation claim as stated, with no condition on the spacing of the claps,
  fails: with
  three claps required and a timeout of 1000 ms, two claps at 0 and 2000 ms followed by
  silence give two cancellations, each carrying 1, and none carrying 2.
\<close>

theorem scattered_claps_cancel_one_at_a_time:
  "int (length [0, 2000 :: int]) = 2 \<and> (2 :: int) < requiredClaps (swOptions threeClapSwitch) \<and>
   clapTimeout (swOptions threeClapSwitch) = 1000 \<and>
   emitted (snd (advanceTo 3001 (feedClaps [0, 2000] (threeClapSwitch, freshHost)))) =
     [(0, Clap 1), (1000, PatternCanceled 1), (2000, Clap 1), (3000, PatternCanceled 1)]"
  by (simp add: switch_eval)

theorem pattern_cancellation_witness:
  "emitted (snd (advanceTo 1001 (feedClaps [0] (defaultSwitch, freshHost)))) =
     [(0, Clap 1), (1000, PatternCanceled 1)] \<and>
   clapCount (fst (advanceTo 1001 (feedClaps [0] (defaultSwitch, freshHost)))) = 0 \<and>
   pendingDeadlines (snd (advanceTo 1001 (feedClaps [0] (defaultSwitch, freshHost)))) = []"
proof -
  have h: "clapCount defaultSwitch = 0" "pendingDeadlines freshHost = []" "nextTimerId freshHost \<noteq> 0"
    "0 \<le> clapTimeout (swOptions defaultSwitch)" "[0 :: int] \<noteq> []"
    "int (length [0 :: int]) < requiredClaps (swOptions defaultSwitch)"
    "now freshHost \<le> hd [0]" "spaced (clapTimeout (swOptions defaultSwitch)) [0]"
    "last [0] + clapTimeout (swOptions defaultSwitch) < 1001"
    by (simp_all add: defaultSwitch_def freshHost_def initialSwitch_def setupEventListeners_def
        case_prod_beta mergeSwitchOptions_def
        noSwitchOptions_def orDefault_def pendingDeadlines_def)
  have v: "clapTimeout (swOptions defaultSwitch) = 1000" "emitted freshHost = []"
    by (simp_all add: defaultSwitch_def freshHost_def initialSwitch_def setupEventListeners_def
        case_prod_beta mergeSwitchOptions_def
        noSwitchOptions_def orDefault_def)
  show ?thesis
    using pattern_cancellation[OF h prod.collapse[symmetric]] v by simp
qed

theorem deadline_pending_iff_accumulating_witness:
  "clapCount (fst (fold step [ClapDetected, TimePasses 500] (defaultSwitch, freshHost))) = 1 \<and>
   requiredClaps (swOptions (fst (fold step [ClapDetected, TimePasses 500] (defaultSwitch, freshHost)))) = 2 \<and>
   pendingDeadlines (snd (fold step [ClapDetected, TimePasses 500] (defaultSwitch, freshHost))) \<noteq> [] \<and>
   length (pendingDeadlines (snd (fold step [ClapDetected, TimePasses 500] (defaultSwitch, freshHost)))) \<le> 1 \<and>
   clapCount (fst (step ClapDetected
      (fold step [ClapDetected, TimePasses 500] (defaultSwitch, freshHost)))) = 0 \<and>
   pendingDeadlines (snd (step ClapDetected
      (fold step [ClapDetected, TimePasses 500] (defaultSwitch, freshHost)))) = []"
proof -
  let ?w = "fold step [ClapDetected, TimePasses 500] (defaultSwitch, freshHost)"
  have h: "clapCount defaultSwitch = 0" "pendingDeadlines freshHost = []" "nextTimerId freshHost \<noteq> 0"
    by (simp_all add: defaultSwitch_def freshHost_def initialSwitch_def setupEventListeners_def
        case_prod_beta pendingDeadlines_def)
  have c: "clapCount (fst ?w) = 1" and r: "requiredClaps (swOptions (fst ?w)) = 2"
    by (simp_all add: switch_eval)
  have "(pendingDeadlines (snd ?w) \<noteq> [] \<longleftrightarrow>
           0 < clapCount (fst ?w) \<and> clapCount (fst ?w) < requiredClaps (swOptions (fst ?w))) \<and>
         length (pendingDeadlines (snd ?w)) \<le> 1 \<and>
         (requiredClaps (swOptions (fst ?w)) \<le> clapCount (fst ?w) + 1 \<longrightarrow>
            clapCount (fst (step ClapDetected (fst ?w, snd ?w))) = 0 \<and>
            pendingDeadlines (snd (step ClapDetected (fst ?w, snd ?w))) = [])"
    using deadline_pending_iff_accumulating[OF h prod.collapse[symmetric], of "[ClapDetected, TimePasses 500]"]
    by blast
  then show ?thesis unfolding c r by simp
qed


subsection \<open>Pattern completion over arbitrary inputs\<close>

lemma clapEvents_snoc: "clapEvents c (Suc n) = clapEvents c n @ [Clap (c + int n + 1)]"
proof (induction n arbitrary: c)
  case 0
  then show ?case by simp
next
  case (Suc n)
  have "clapEvents c (Suc (Suc n)) = Clap (c + 1) # clapEvents (c + 1) (Suc n)" by simp
  also have "\<dots> = Clap (c + 1) # (clapEvents (c + 1) n @ [Clap (c + 1 + int n + 1)])"
    by (simp only: Suc.IH)
  also have "\<dots> = clapEvents c (Suc n) @ [Clap (c + int (Suc n) + 1)]"
    by (simp add: algebra_simps)
  finally show ?case .
qed

lemma noTimeout_append: "noTimeout (xs @ ys) w = (noTimeout xs w \<and> noTimeout ys (fold step xs w))"
  by (induction xs arbitrary: w) simp_all

lemma clapsIn_simps [simp]:
  "clapsIn [] = 0" "clapsIn (ClapDetected # ins) = Suc (clapsIn ins)"
  "i \<noteq> ClapDetected \<Longrightarrow> clapsIn (i # ins) = clapsIn ins"
  "clapsIn (xs @ ys) = clapsIn xs + clapsIn ys"
  by (simp_all add: clapsIn_def)

text \<open>The log only grows.\<close>

lemma onClap_extends: "\<exists>new. emitted (snd (onClap w)) = emitted (snd w) @ new"
  by (cases w)
     (auto simp add: onClap_def handleClap_def setTimeout_def Let_def case_prod_beta
        split: option.splits)

lemma fireTimer_extends: "\<exists>new. emitted (snd (fireTimer u w)) = emitted (snd w) @ new"
  by (cases w; cases "callback u") (auto simp add: fireTimer_def cancelPattern_def)

lemma advanceTo_extends: "\<exists>new. emitted (snd (advanceTo t w)) = emitted (snd w) @ new"
proof (induction t w rule: advanceTo.induct)
  case (1 t sw h)
  show ?case
  proof (cases "nextDue t (timers h)")
    case None
    then show ?thesis by (simp add: advanceTo.simps)
  next
    case (Some u)
    let ?w1 = "fireTimer u (sw, h\<lparr> now := max (now h) (due u) \<rparr>)"
    obtain n1 where a: "emitted (snd ?w1) = emitted h @ n1"
      using fireTimer_extends[of u "(sw, h\<lparr> now := max (now h) (due u) \<rparr>)"] by auto
    obtain n2 where b: "emitted (snd (advanceTo t ?w1)) = emitted (snd ?w1) @ n2"
      using "1.IH"[OF Some] by blast
    have "advanceTo t (sw, h) = advanceTo t ?w1" using Some by (simp add: advanceTo.simps)
    then show ?thesis using a b by simp
  qed
qed

lemma step_extends: "\<exists>new. emitted (snd (step i w)) = emitted (snd w) @ new"
proof (cases i)
  case ClapDetected
  then show ?thesis using onClap_extends[of w] by simp
next
  case (TimerFires u)
  then show ?thesis using fireTimer_extends[of u w] by simp
next
  case (TimePasses t)
  then show ?thesis using advanceTo_extends[of t w] by simp
next
  case (StartSettles hasMic ch)
  obtain sw h where w: "w = (sw, h)" by (cases w)
  obtain sw' h' where r: "settleStart hasMic ch (sw, h) = (sw', h')"
    by (cases "settleStart hasMic ch (sw, h)")
  show ?thesis using settleStart_pattern(8)[OF r] StartSettles by (auto simp add: w r)
qed

lemma fold_step_extends: "\<exists>new. emitted (snd (fold step ins w)) = emitted (snd w) @ new"
proof (induction ins arbitrary: w)
  case Nil
  then show ?case by simp
next
  case (Cons i ins)
  obtain n1 where a: "emitted (snd (step i w)) = emitted (snd w) @ n1"
    using step_extends[of i w] by blast
  obtain n2 where b: "emitted (snd (fold step ins (step i w))) = emitted (snd (step i w)) @ n2"
    using Cons.IH[of "step i w"] by blast
  show ?case using a b by simp
qed

text \<open>
  An input other than a clap that runs no pattern timer leaves the window, the options
  and the store as they are, and adds no event of the pattern machine.
\<close>

lemma step_quiet_open:
  assumes "openWindow c d (sw, h)" and "i \<noteq> ClapDetected" and "quietInput i (sw, h)"
    and "step i (sw, h) = (sw', h')"
  shows "openWindow c d (sw', h')" and "patternLog h' = patternLog h"
    and "swOptions sw' = swOptions sw" and "stateManager sw' = stateManager sw"
proof -
  have "openWindow c d (sw', h') \<and> patternLog h' = patternLog h \<and> swOptions sw' = swOptions sw \<and>
         stateManager sw' = stateManager sw"
  proof (cases i)
    case ClapDetected
    then show ?thesis using assms(2) by simp
  next
    case (TimerFires u)
    then have nd: "u \<notin> set (pendingDeadlines h)" using assms(3) by simp
    show ?thesis
    proof (cases "u \<in> set (timers h)")
      case False
      then show ?thesis using assms(1,4) TimerFires by (simp add: fireTimer_def)
    next
      case True
      then have cb: "callback u = AutoStart" using nd by (simp add: pendingDeadlines_mem callback_cases)
      have e: "sw' = sw"
        "h' = h\<lparr> timers := remove1 u (timers h), startsPending := Suc (startsPending h) \<rparr>"
        using assms(4) TimerFires True cb by (simp_all add: fireTimer_autoStart)
      have "pendingDeadlines h' = pendingDeadlines h"
        using nd by (simp add: e pendingDeadlines_remove1[of _ u h] remove1_idem)
      then have "openWindow c d (sw', h') = openWindow c d (sw, h)"
        by (intro openWindow_cong) (simp_all add: e)
      then show ?thesis using assms(1) by (simp add: e patternLog_def events_def)
    qed
  next
    case (TimePasses t)
    then have q: "\<forall>u\<in>set (pendingDeadlines (snd (sw, h))). t < due u"
      using assms(3) by (simp add: list_all_iff)
    have f: "sw' = sw" "emitted h' = emitted h" "pendingDeadlines h' = pendingDeadlines h"
      "nextTimerId h' = nextTimerId h"
      using advanceTo_quiet[OF q] assms(4) TimePasses by simp_all
    have "openWindow c d (sw', h') = openWindow c d (sw, h)"
      by (intro openWindow_cong) (simp_all add: f)
    then show ?thesis using assms(1) f by (simp add: patternLog_def events_def)
  next
    case (StartSettles hasMic ch)
    then have r: "settleStart hasMic ch (sw, h) = (sw', h')" using assms(4) by simp
    have "openWindow c d (sw', h') = openWindow c d (sw, h)"
      using settleStart_pattern(1,2,6)[OF r] settleStart_patternLog(2)[OF r]
      by (intro openWindow_cong) simp_all
    then show ?thesis
      using assms(1) settleStart_pattern(3,4)[OF r] settleStart_patternLog(1)[OF r] by simp
  qed
  then show "openWindow c d (sw', h')" and "patternLog h' = patternLog h"
    and "swOptions sw' = swOptions sw" and "stateManager sw' = stateManager sw" by simp_all
qed

lemma run_accumulates:
  assumes "openWindow c d w" and "0 \<le> c" and "noTimeout ins w"
    and "c + int (clapsIn ins) < requiredClaps (swOptions (fst w))"
  shows "\<exists>d'. openWindow (c + int (clapsIn ins)) d' (fold step ins w) \<and>
           patternLog (snd (fold step ins w)) = patternLog (snd w) @ clapEvents c (clapsIn ins) \<and>
           swOptions (fst (fold step ins w)) = swOptions (fst w) \<and>
           stateManager (fst (fold step ins w)) = stateManager (fst w)"
  using assms
proof (induction ins arbitrary: c d w)
  case Nil
  then show ?case by auto
next
  case (Cons i ins)
  obtain sw h where w: "w = (sw, h)" by (cases w)
  obtain sw1 h1 where s: "step i (sw, h) = (sw1, h1)" by (cases "step i (sw, h)")
  have nt: "noTimeout ins (sw1, h1)" and qi: "quietInput i (sw, h)"
    using Cons.prems(3) by (simp_all add: w s)
  have o: "openWindow c d (sw, h)" using Cons.prems(1) by (simp add: w)
  have fold_eq: "fold step (i # ins) w = fold step ins (sw1, h1)" by (simp add: w s)
  show ?case
  proof (cases "i = ClapDetected")
    case True
    then have n: "clapsIn (i # ins) = Suc (clapsIn ins)" by simp
    have lt: "c + 1 < requiredClaps (swOptions sw)" using Cons.prems(4) by (simp add: n w)
    have oc: "onClap (sw, h) = (sw1, h1)" using s True by simp
    have a: "openWindow (c + 1) (now h + max 0 (clapTimeout (swOptions sw))) (sw1, h1)"
      "emitted h1 = emitted h @ [(now h, Clap (c + 1))]"
      "swOptions sw1 = swOptions sw" "stateManager sw1 = stateManager sw"
      using onClap_accumulates(1,2,4,5)[OF o Cons.prems(2) lt oc] by simp_all
    have nn: "0 \<le> c + 1" using Cons.prems(2) by simp
    have lt1: "c + 1 + int (clapsIn ins) < requiredClaps (swOptions (fst (sw1, h1)))"
      using Cons.prems(4) a(3) by (simp add: n w)
    obtain d' where ih: "openWindow (c + 1 + int (clapsIn ins)) d' (fold step ins (sw1, h1))"
      "patternLog (snd (fold step ins (sw1, h1))) =
         patternLog (snd (sw1, h1)) @ clapEvents (c + 1) (clapsIn ins)"
      "swOptions (fst (fold step ins (sw1, h1))) = swOptions (fst (sw1, h1))"
      "stateManager (fst (fold step ins (sw1, h1))) = stateManager (fst (sw1, h1))"
      using Cons.IH[OF a(1) nn nt lt1] by blast
    have cnt: "c + int (clapsIn (i # ins)) = c + 1 + int (clapsIn ins)" by (simp add: n)
    have ev: "patternLog (snd (fold step ins (sw1, h1))) =
                patternLog h @ clapEvents c (clapsIn (i # ins))"
      using ih(2) a(2) by (simp add: n patternLog_def events_def)
    show ?thesis
      unfolding fold_eq cnt using ih(1,3,4) ev a(3,4) by (auto simp add: w)
  next
    case False
    then have n: "clapsIn (i # ins) = clapsIn ins" by simp
    have q: "openWindow c d (sw1, h1)" "patternLog h1 = patternLog h" "swOptions sw1 = swOptions sw"
      "stateManager sw1 = stateManager sw"
      using step_quiet_open[OF o False qi s] by simp_all
    have lt1: "c + int (clapsIn ins) < requiredClaps (swOptions (fst (sw1, h1)))"
      using Cons.prems(4) q(3) by (simp add: n w)
    show ?thesis
      unfolding fold_eq n using Cons.IH[OF q(1) Cons.prems(2) nt lt1] q(2,3,4) by (simp add: w)
  qed
qed

lemma clapsIn_none: "ClapDetected \<notin> set ins \<Longrightarrow> clapsIn ins = 0"
  by (auto simp add: clapsIn_def filter_empty_conv)

lemma clapsIn_pos: "0 < clapsIn ins \<Longrightarrow> ClapDetected \<in> set ins"
  using clapsIn_none by fastforce

text \<open>
  C1 (pattern completion). From count 0 with no pattern timer pending, take any run of
  inputs (claps, the host running timers, time passing, a delayed start going on) that
  holds exactly \<open>requiredClaps\<close> claps (at least one) and during which no pattern
  timeout fires. Among the events the switch emits during the run, those of the pattern
  machine are one \<open>clap\<close> event per clap, carrying the running count, and then exactly
  one \<open>pattern\<close> event, carrying \<open>requiredClaps\<close>; no \<open>pattern-canceled\<close> is emitted. The
  store is asked to toggle exactly once: it is as one \<open>toggle()\<close> leaves it, its state
  flipped and one \<open>toggle\<close> event of its own emitted. Afterwards the count is 0 and no
  pattern timer is pending. (The switch itself emits no \<open>toggle\<close> event: the listener
  that would pass it on is never registered.)
\<close>

theorem pattern_completion:
  assumes "clapCount sw = 0" and "pendingDeadlines h = []" and "nextTimerId h \<noteq> 0"
    and "1 \<le> requiredClaps (swOptions sw)"
    and "int (clapsIn ins) = requiredClaps (swOptions sw)"
    and "noTimeout ins (sw, h)"
    and "fold step ins (sw, h) = (sw', h')"
  shows "(\<exists>new. events h' = events h @ new \<and>
            filter patternEvent new =
              clapEvents 0 (clapsIn ins) @ [Pattern (requiredClaps (swOptions sw))]) \<and>
         stateManager sw' = snd (toggle (stateManager sw)) \<and>
         state (stateManager sw') = (\<not> state (stateManager sw)) \<and>
         toggleEvents (stateManager sw') =
           toggleEvents (stateManager sw) @ [\<not> state (stateManager sw)] \<and>
         clapCount sw' = 0 \<and> pendingDeadlines h' = []"
proof -
  have "0 < clapsIn ins" using assms(4,5) by linarith
  then have "ClapDetected \<in> set ins" by (rule clapsIn_pos)
  then obtain pre post where ins: "ins = pre @ ClapDetected # post" and np: "ClapDetected \<notin> set post"
    using split_list_last[of ClapDetected ins] by blast
  have post0: "clapsIn post = 0" using np by (rule clapsIn_none)
  have n: "clapsIn ins = Suc (clapsIn pre)" by (simp add: ins post0)
  have req: "int (clapsIn pre) + 1 = requiredClaps (swOptions sw)" using assms(5) n by simp
  have nt: "noTimeout pre (sw, h)"
    and nt2: "noTimeout post (fold step (pre @ [ClapDetected]) (sw, h))"
    using assms(6) noTimeout_append[of "pre @ [ClapDetected]" post "(sw, h)"]
      noTimeout_append[of pre "[ClapDetected]" "(sw, h)"]
    by (simp_all add: ins)
  have idle: "openWindow 0 0 (sw, h)" using idle_open[OF assms(1,2,3)] .
  obtain sw1 h1 where w1: "fold step pre (sw, h) = (sw1, h1)" by (cases "fold step pre (sw, h)")
  have lt: "0 + int (clapsIn pre) < requiredClaps (swOptions (fst (sw, h)))" using req by simp
  obtain d1 where a: "openWindow (int (clapsIn pre)) d1 (sw1, h1)"
    "patternLog h1 = patternLog h @ clapEvents 0 (clapsIn pre)"
    "swOptions sw1 = swOptions sw" "stateManager sw1 = stateManager sw"
    using run_accumulates[OF idle _ nt lt] w1 by auto
  obtain sw2 h2 where w2: "onClap (sw1, h1) = (sw2, h2)" by (cases "onClap (sw1, h1)")
  have nn: "0 \<le> int (clapsIn pre)" by simp
  have le: "requiredClaps (swOptions sw1) \<le> int (clapsIn pre) + 1" using req a(3) by simp
  have b: "clapCount sw2 = 0" "pendingDeadlines h2 = []" "nextTimerId h2 \<noteq> 0"
    "emitted h2 = emitted h1 @ [(now h1, Clap (int (clapsIn pre) + 1)),
                                 (now h1, Pattern (int (clapsIn pre) + 1))]"
    "swOptions sw2 = swOptions sw1"
    "stateManager sw2 = snd (toggle (stateManager sw1))"
    using onClap_completes(1,2,3,4,6,7)[OF a(1) nn le w2] by simp_all
  have ev2: "patternLog h2 = patternLog h @ clapEvents 0 (clapsIn ins) @
               [Pattern (requiredClaps (swOptions sw))]"
  proof -
    have "clapEvents 0 (clapsIn ins) = clapEvents 0 (clapsIn pre) @ [Clap (requiredClaps (swOptions sw))]"
      unfolding n req[symmetric] by (simp only: clapEvents_snoc) simp
    moreover have "patternLog h2 = patternLog h1 @
        [Clap (int (clapsIn pre) + 1), Pattern (int (clapsIn pre) + 1)]"
      using b(4) by (simp add: patternLog_def events_def)
    ultimately show ?thesis using a(2) req by simp
  qed
  have f2: "fold step (pre @ [ClapDetected]) (sw, h) = (sw2, h2)" by (simp add: w1 w2)
  have idle2: "openWindow 0 0 (sw2, h2)" using idle_open[OF b(1,2,3)] .
  have lt2: "0 + int (clapsIn post) < requiredClaps (swOptions (fst (sw2, h2)))"
    using assms(4) b(5) a(3) by (simp add: post0)
  have f3: "fold step post (sw2, h2) = (sw', h')" using assms(7) f2 by (simp add: ins w1 w2)
  obtain d3 where c: "openWindow 0 d3 (sw', h')" "patternLog h' = patternLog h2"
    "stateManager sw' = stateManager sw2"
    using run_accumulates[OF idle2 _ nt2[unfolded f2] lt2] f3 by (auto simp add: post0)
  have idle3: "clapCount sw' = 0" "pendingDeadlines h' = []"
    using c(1) by (simp_all add: openWindow_def)
  have store: "stateManager sw' = snd (toggle (stateManager sw))"
    using c(3) b(6) a(4) by simp
  obtain new where new: "emitted h' = emitted h @ new"
    using fold_step_extends[of ins "(sw, h)"] assms(7) by auto
  have "patternLog h' = patternLog h @ filter patternEvent (map snd new)"
    by (simp add: patternLog_def events_def new)
  then have "filter patternEvent (map snd new) =
      clapEvents 0 (clapsIn ins) @ [Pattern (requiredClaps (swOptions sw))]"
    using c(2) ev2 by simp
  moreover have "events h' = events h @ map snd new" by (simp add: events_def new)
  ultimately have log: "\<exists>new. events h' = events h @ new \<and>
            filter patternEvent new =
              clapEvents 0 (clapsIn ins) @ [Pattern (requiredClaps (swOptions sw))]"
    by blast
  show ?thesis using log store idle3 by (simp add: toggle_fields)
qed

text \<open>
  The switch built with \<open>autoStart\<close>: a clap, the delayed start running at 100 ms and
  going on at 150 ms, and a second clap at 400 ms. The store, which the constructor
  left on, ends off.
\<close>

theorem pattern_completion_witness:
  "events (snd (fold step
      [ClapDetected, TimePasses 150, StartSettles True grantingHost, TimePasses 400, ClapDetected]
      (autoStartSwitch, autoStartHost))) =
     [Clap 1, Started, Clap 2, Pattern 2] \<and>
   filter patternEvent [Clap 1, Started, Clap 2, Pattern 2] = [Clap 1, Clap 2, Pattern 2] \<and>
   state (stateManager autoStartSwitch) \<and>
   \<not> state (stateManager (fst (fold step
      [ClapDetected, TimePasses 150, StartSettles True grantingHost, TimePasses 400, ClapDetected]
      (autoStartSwitch, autoStartHost)))) \<and>
   toggleEvents (stateManager (fst (fold step
      [ClapDetected, TimePasses 150, StartSettles True grantingHost, TimePasses 400, ClapDetected]
      (autoStartSwitch, autoStartHost)))) = [True, False] \<and>
   clapCount (fst (fold step
      [ClapDetected, TimePasses 150, StartSettles True grantingHost, TimePasses 400, ClapDetected]
      (autoStartSwitch, autoStartHost))) = 0 \<and>
   pendingDeadlines (snd (fold step
      [ClapDetected, TimePasses 150, StartSettles True grantingHost, TimePasses 400, ClapDetected]
      (autoStartSwitch, autoStartHost))) = []"
proof -
  let ?ins = "[ClapDetected, TimePasses 150, StartSettles True grantingHost, TimePasses 400, ClapDetected]"
  let ?w = "fold step ?ins (autoStartSwitch, autoStartHost)"
  have h: "clapCount autoStartSwitch = 0" "pendingDeadlines autoStartHost = []"
    "nextTimerId autoStartHost \<noteq> 0"
    "1 \<le> requiredClaps (swOptions autoStartSwitch)"
    "int (clapsIn ?ins) = requiredClaps (swOptions autoStartSwitch)"
    by (simp_all add: autoStartSwitch_def autoStartHost_def switch_eval)
  have ev: "events (snd ?w) = [Clap 1, Started, Clap 2, Pattern 2]"
    by (simp add: autoStartSwitch_def autoStartHost_def switch_eval settleStart_def switchStart_def
        events_def start_def AudioProcessor_new_def grantingHost_def createAudioContext_def
        requestMicrophoneAccess_def setupAudioProcessing_def startAnalysis_def)
  have q: "noTimeout ?ins (autoStartSwitch, autoStartHost)"
    by (simp add: autoStartSwitch_def autoStartHost_def switch_eval settleStart_def switchStart_def
        list_all_iff start_def AudioProcessor_new_def grantingHost_def createAudioContext_def
        requestMicrophoneAccess_def setupAudioProcessing_def startAnalysis_def)
  have v: "state (stateManager autoStartSwitch)" "toggleEvents (stateManager autoStartSwitch) = [True]"
    by (simp_all add: autoStartSwitch_def switch_eval)
  have "state (stateManager (fst ?w)) = (\<not> state (stateManager autoStartSwitch)) \<and>
        toggleEvents (stateManager (fst ?w)) =
          toggleEvents (stateManager autoStartSwitch) @ [\<not> state (stateManager autoStartSwitch)] \<and>
        clapCount (fst ?w) = 0 \<and> pendingDeadlines (snd ?w) = []"
    using pattern_completion[OF h q prod.collapse[symmetric]] by blast
  then show ?thesis using ev v by simp
qed

end
